theory Spec2Isabelle
  imports Complex_Main "HOL-Library.Sublist" "HOL-Library.Char_ord" "HOL-Library.List_Lexorder"
    "HOL-Library.Product_Lexorder"
begin

section \<open>Common types\<close>

text \<open>
  Message indices are Python integers; a trace is a list of them.  The Python exceptions the
  modelled functions can raise are values of \<open>py_error\<close>; a function that can raise returns
  \<open>py_error + 'a\<close> with \<open>Inl\<close> for the exception.
\<close>

datatype py_error = IndexError | ValueError | ZeroDivisionError

type_synonym pair = "int \<times> int"

section \<open>Binary pattern removal (\<open>binary_patterns copy 2.py\<close>)\<close>

text \<open>
  \<open>remove_binary_pattern(pair, trace)\<close> first marks every position: 1 for \<open>pair[0]\<close>, 2 for
  \<open>pair[1]\<close> (the \<open>elif\<close>, so a pair with equal components only yields 1), 0 otherwise.
\<close>

definition mark_trace :: "pair \<Rightarrow> int list \<Rightarrow> nat list" where
  "mark_trace pair trace =
     map (\<lambda>x. if x = fst pair then 1 else if x = snd pair then 2 else 0) trace"

text \<open>
  The local variables of the \<open>while\<close> loop that its result depends on.  The loop also
  appends to \<open>new_trace\<close> and the function rebinds \<open>pair = -1\<close>; both are dead (\<open>new_trace\<close> is
  overwritten by the final comprehension) and are left out.
\<close>

record pairing =
  firsthalf :: "nat list"
  remove :: nat
  toremove :: "nat list"

definition pairing_init :: pairing where
  "pairing_init = \<lparr>firsthalf = [], remove = 0, toremove = []\<rparr>"

text \<open>
  The loop \<open>while i < len(trace)\<close>: every branch ends with \<open>i += 1\<close>, so the loop walks the
  marks from position \<open>i\<close> on.  \<open>firsthalf.pop(0)\<close> takes the head of the list.
\<close>

fun pair_loop :: "nat list \<Rightarrow> nat \<Rightarrow> pairing \<Rightarrow> pairing" where
  "pair_loop [] i st = st"
| "pair_loop (m # ms) i st =
     (if m = 1 then pair_loop ms (Suc i) (st\<lparr>firsthalf := firsthalf st @ [i]\<rparr>)
      else if m = 2 \<and> firsthalf st \<noteq> [] then
        (let st1 = (if hd (firsthalf st) < i
                    then st\<lparr>remove := hd (firsthalf st), firsthalf := tl (firsthalf st)\<rparr>
                    else st)
         in pair_loop ms (Suc i) (st1\<lparr>toremove := toremove st1 @ [remove st1, i]\<rparr>))
      else pair_loop ms (Suc i) st)"

definition binary_toremove :: "pair \<Rightarrow> int list \<Rightarrow> nat list" where
  "binary_toremove pair trace = toremove (pair_loop (mark_trace pair trace) 0 pairing_init)"

text \<open>The comprehension \<open>[trace[i] for i in range(len(trace)) if i not in toremove]\<close>.\<close>

definition drop_positions :: "nat set \<Rightarrow> 'a list \<Rightarrow> 'a list" where
  "drop_positions rm trace = map (\<lambda>i. trace ! i) (filter (\<lambda>i. i \<notin> rm) [0..<length trace])"

definition remove_binary_pattern :: "pair \<Rightarrow> int list \<Rightarrow> int list" where
  "remove_binary_pattern pair trace = drop_positions (set (binary_toremove pair trace)) trace"

text \<open>
  For stating the pairing discipline: the occurrences of \<open>a\<close> in a prefix \<open>pre\<close> of the trace
  that are still pending (unmatched) once the positions \<open>removed\<close> have been paired, in
  increasing order.
\<close>

definition pending_positions :: "int \<Rightarrow> int list \<Rightarrow> nat list \<Rightarrow> nat list" where
  "pending_positions a pre removed =
     filter (\<lambda>i. pre ! i = a \<and> i \<notin> set removed) [0..<length pre]"

section \<open>Pattern removal with buckets and cursors (\<open>functions.py\<close>)\<close>

text \<open>
  \<open>remove_pattern_from_trace(trace, pattern)\<close> keeps a dict \<open>buckets\<close> from each number of the
  pattern to the list of trace positions holding it.  The dict comprehension
  \<open>{num: [] for num in pattern}\<close> creates the keys; the scan over \<open>enumerate(trace)\<close> appends
  each position to the bucket of its number when the number is a key.
\<close>

type_synonym buckets = "int \<rightharpoonup> nat list"

definition init_buckets :: "int list \<Rightarrow> buckets" where
  "init_buckets pattern = map_of (map (\<lambda>num. (num, [])) pattern)"

fun fill_buckets :: "buckets \<Rightarrow> nat \<Rightarrow> int list \<Rightarrow> buckets" where
  "fill_buckets b index [] = b"
| "fill_buckets b index (num # rest) =
     (case b num of
        Some l \<Rightarrow> fill_buckets (b(num \<mapsto> l @ [index])) (Suc index) rest
      | None \<Rightarrow> fill_buckets b (Suc index) rest)"

text \<open>
  The inner \<open>while\<close> loop on the cursor of slot \<open>j\<close>:
  \<open>while pointers[j] < len(bucket) and bucket[pointers[j]] <= currentindices[-1]: pointers[j] += 1\<close>.
\<close>

function advance :: "nat list \<Rightarrow> nat \<Rightarrow> nat \<Rightarrow> nat" where
  "advance bucket lastindex p =
     (if p < length bucket \<and> bucket ! p \<le> lastindex then advance bucket lastindex (Suc p) else p)"
  by pat_completeness auto
termination
  by (relation "measure (\<lambda>(bucket, lastindex, p). length bucket - p)") auto

declare advance.simps [simp del]

text \<open>
  The loop \<open>for j in range(1, len(pattern))\<close> for one start position, with its \<open>break\<close>.
  The result is the cursor array, \<open>currentindices\<close> and \<open>valid_pattern\<close>.  Every key looked
  up in \<open>buckets\<close> is a number of the pattern, hence present; cursors advanced for a start
  that fails are kept.
\<close>

fun match_slots ::
  "buckets \<Rightarrow> int list \<Rightarrow> nat list \<Rightarrow> nat list \<Rightarrow> nat list \<Rightarrow> nat list \<times> nat list \<times> bool" where
  "match_slots b pattern [] pointers currentindices = (pointers, currentindices, True)"
| "match_slots b pattern (j # js) pointers currentindices =
     (let bucket = the (b (pattern ! j));
          p = advance bucket (last currentindices) (pointers ! j)
      in if p < length bucket
         then match_slots b pattern js (pointers[j := Suc p]) (currentindices @ [bucket ! p])
         else (pointers[j := p], currentindices, False))"

text \<open>The loop \<open>for index in buckets[pattern[0]]\<close>, threading the cursors and \<open>to_remove\<close>.\<close>

fun match_starts :: "buckets \<Rightarrow> int list \<Rightarrow> nat list \<Rightarrow> nat list \<Rightarrow> nat set \<Rightarrow> nat set" where
  "match_starts b pattern [] pointers to_remove = to_remove"
| "match_starts b pattern (index # rest) pointers to_remove =
     (case match_slots b pattern [1..<length pattern] pointers [index] of
        (pointers', currentindices, valid_pattern) \<Rightarrow>
          match_starts b pattern rest pointers'
            (if valid_pattern \<and> length currentindices = length pattern
             then to_remove \<union> set currentindices else to_remove))"

text \<open>
  \<open>buckets[pattern[0]]\<close> raises \<open>IndexError\<close> on the empty pattern; nothing else in the
  function can raise.
\<close>

definition pattern_to_remove :: "int list \<Rightarrow> int list \<Rightarrow> nat set" where
  "pattern_to_remove trace pattern =
     (let b = fill_buckets (init_buckets pattern) 0 trace
      in match_starts b pattern (the (b (pattern ! 0))) (replicate (length pattern) 0) {})"

definition remove_pattern_from_trace :: "int list \<Rightarrow> int list \<Rightarrow> py_error + int list" where
  "remove_pattern_from_trace trace pattern =
     (if pattern = [] then Inl IndexError
      else Inr (drop_positions (pattern_to_remove trace pattern) trace))"

text \<open>
  For stating facts about the buckets: the positions of a value in a list, in increasing
  order.  The bucket of each number of the pattern is this list (lemma \<open>buckets_positions\<close>).
\<close>

definition positions :: "'a \<Rightarrow> 'a list \<Rightarrow> nat list" where
  "positions v xs = filter (\<lambda>j. xs ! j = v) [0..<length xs]"

section \<open>The successor dictionary and causal pairs (\<open>binary_patterns copy 2.py\<close>)\<close>

text \<open>
  \<open>successors_dict\<close> maps a message index to a dict with the keys \<open>'src'\<close>, \<open>'dest'\<close> and
  \<open>'successors'\<close>.
\<close>

record entry =
  src :: string
  dest :: string
  successors :: "int list"

type_synonym successors_dict = "int \<rightharpoonup> entry"

text \<open>\<open>successors_dict.get(n, {}).get('successors', [])\<close>.\<close>

definition successors_of :: "successors_dict \<Rightarrow> int \<Rightarrow> int list" where
  "successors_of sd n = (case sd n of None \<Rightarrow> [] | Some e \<Rightarrow> successors e)"

definition isCausal :: "int \<Rightarrow> int \<Rightarrow> successors_dict \<Rightarrow> bool" where
  "isCausal node_index1 node_index2 sd =
     (node_index2 \<in> set (successors_of sd node_index1) \<or>
      node_index1 \<in> set (successors_of sd node_index2))"

text \<open>
  \<open>find_causal_pairs(indices, successors_dict)\<close>: the loops over \<open>i\<close> in
  \<open>range(len(indices))\<close> and \<open>j\<close> in \<open>range(i+1, len(indices))\<close>, adding to a set.
\<close>

definition causal_pairs_step :: "int list \<Rightarrow> successors_dict \<Rightarrow> nat \<Rightarrow> nat \<Rightarrow> pair set \<Rightarrow> pair set" where
  "causal_pairs_step indices sd i j causal_pairs =
     (let cp1 = (if isCausal (indices ! i) (indices ! j) sd
                 then insert (indices ! i, indices ! j) causal_pairs else causal_pairs)
      in if isCausal (indices ! j) (indices ! i) sd
         then insert (indices ! j, indices ! i) cp1 else cp1)"

definition find_causal_pairs :: "int list \<Rightarrow> successors_dict \<Rightarrow> pair set" where
  "find_causal_pairs indices sd =
     fold (\<lambda>i. fold (causal_pairs_step indices sd i) [Suc i..<length indices])
       [0..<length indices] {}"

section \<open>The decomposition search (\<open>find_binary_pattern\<close>)\<close>

text \<open>
  A \<open>Node\<close> holds its remaining trace, the pairs applied so far, its acceptance ratio and
  \<open>used_nodes\<close>.  The list \<open>used_nodes\<close> is a mutable object that a child can share with its
  parent, so the model keeps the list objects in a heap and a node holds a reference.  The
  other fields are never shared between nodes and are held by value.
\<close>

record node =
  remaining_trace :: "int list"
  used_pairs :: "pair list"
  acceptance_ratio :: "rat option"
  used_nodes :: nat

text \<open>
  The state of one call of \<open>find_binary_pattern\<close>: the heap of \<open>used_nodes\<close> lists with the
  next free reference, and the dict \<open>route_acceptance_ratios\<close>, whose keys are
  \<open>0, 1, 2, \<dots>\<close> in insertion order, as the list of its values.  The field \<open>explored\<close> is a
  history variable: the nodes \<open>explore_node\<close> has been entered with, in order.  Nothing reads
  it; it is there to state facts about every node of the search.

  Python computes the acceptance ratio in binary floating point; the model computes the
  exact rational number.
\<close>

record search =
  heap :: "nat \<Rightarrow> int list"
  next_ref :: nat
  route_acceptance_ratios :: "(pair list \<times> rat) list"
  explored :: "node list"

definition search_init :: search where
  "search_init = \<lparr>heap = (\<lambda>r. []), next_ref = 0, route_acceptance_ratios = [], explored = []\<rparr>"

text \<open>
  \<open>Node.__init__\<close>: \<open>self.used_nodes = used_nodes if used_nodes else []\<close>.  A non-empty list
  that is passed in is kept as the same object; \<open>None\<close> or an empty list is replaced by a
  fresh empty list.
\<close>

definition Node_init :: "int list \<Rightarrow> pair list \<Rightarrow> nat option \<Rightarrow> search \<Rightarrow> node \<times> search" where
  "Node_init rt up un s =
     (let fresh = (\<lparr>remaining_trace = rt, used_pairs = up, acceptance_ratio = None,
                     used_nodes = next_ref s\<rparr>,
                   s\<lparr>heap := (heap s)(next_ref s := []), next_ref := Suc (next_ref s)\<rparr>)
      in case un of
           None \<Rightarrow> fresh
         | Some r \<Rightarrow>
             if heap s r \<noteq> []
             then (\<lparr>remaining_trace = rt, used_pairs = up, acceptance_ratio = None,
                    used_nodes = r\<rparr>, s)
             else fresh)"

text \<open>\<open>list.append\<close> on the object a reference points to.\<close>

definition heap_append :: "nat \<Rightarrow> int \<Rightarrow> search \<Rightarrow> search" where
  "heap_append r x s = s\<lparr>heap := (heap s)(r := heap s r @ [x])\<rparr>"

text \<open>
  \<open>calculate_acceptance_ratio\<close>: \<open>1 - (len(remaining_trace) / len(original_trace))\<close>; the
  division raises \<open>ZeroDivisionError\<close> when the original trace is empty.
\<close>

definition calculate_acceptance_ratio :: "int list \<Rightarrow> int list \<Rightarrow> py_error + rat" where
  "calculate_acceptance_ratio remaining original =
     (if length original = 0 then Inl ZeroDivisionError
      else Inr (1 - of_nat (length remaining) / of_nat (length original)))"

text \<open>
  The three statements of \<open>explore_node\<close> that create a child:
  \<open>child_node = Node(remaining_trace=updated_remaining_trace, used_pairs=node.used_pairs + [pair],
  used_nodes=node.used_nodes)\<close>, then \<open>child_node.used_nodes.append(pair[0])\<close> and
  \<open>child_node.used_nodes.append(pair[1])\<close>.
\<close>

definition spawn_child :: "node \<Rightarrow> pair \<Rightarrow> search \<Rightarrow> node \<times> search" where
  "spawn_child node pair s =
     (let updated_remaining_trace = remove_binary_pattern pair (remaining_trace node);
          new_used_pairs = used_pairs node @ [pair];
          c = Node_init updated_remaining_trace new_used_pairs (Some (used_nodes node)) s
      in (fst c,
          heap_append (used_nodes (fst c)) (snd pair)
            (heap_append (used_nodes (fst c)) (fst pair) (snd c))))"

text \<open>
  \<open>explore_node\<close> with its two nested \<open>for\<close> loops.  \<open>explore_values\<close> is the loop over
  \<open>enumerate(node.remaining_trace)\<close> from the current position on, with the list \<open>seen\<close>; it
  returns \<open>flag\<close>.  \<open>explore_pairs\<close> is the loop \<open>for pair in causal_pairs\<close> for one value.  The
  set \<open>causal_pairs\<close> is not modified during the search, so every loop over it runs in the
  same order; that order is the list \<open>causal_pairs\<close> of the model.  The outer loop leaves
  with \<open>break\<close> as soon as \<open>flag\<close> is 1, so \<open>flag\<close> is 0 whenever the inner loop starts.
\<close>

function explore_node :: "pair list \<Rightarrow> int list \<Rightarrow> node \<Rightarrow> search \<Rightarrow> py_error + search"
  and explore_values ::
    "pair list \<Rightarrow> int list \<Rightarrow> node \<Rightarrow> int list \<Rightarrow> int list \<Rightarrow> search \<Rightarrow> py_error + bool \<times> search"
  and explore_pairs ::
    "pair list \<Rightarrow> int list \<Rightarrow> node \<Rightarrow> int \<Rightarrow> pair list \<Rightarrow> bool \<Rightarrow> search \<Rightarrow> py_error + bool \<times> search"
where
  "explore_node causal_pairs trace node s =
     (case explore_values causal_pairs trace node (remaining_trace node) []
             (s\<lparr>explored := explored s @ [node]\<rparr>) of
        Inl e \<Rightarrow> Inl e
      | Inr r \<Rightarrow>
          if fst r then Inr (snd r)
          else (case calculate_acceptance_ratio (remaining_trace node) trace of
                  Inl e \<Rightarrow> Inl e
                | Inr ratio \<Rightarrow>
                    Inr ((snd r)\<lparr>route_acceptance_ratios :=
                           route_acceptance_ratios (snd r) @ [(used_pairs node, ratio)]\<rparr>)))"
| "explore_values causal_pairs trace node [] seen s = Inr (False, s)"
| "explore_values causal_pairs trace node (val # rest) seen s =
     (if val \<in> set (heap s (used_nodes node))
      then explore_values causal_pairs trace node rest seen s
      else if val \<in> set seen
      then explore_values causal_pairs trace node rest seen s
      else (case explore_pairs causal_pairs trace node val causal_pairs False s of
              Inl e \<Rightarrow> Inl e
            | Inr r \<Rightarrow>
                if fst r then Inr (True, snd r)
                else explore_values causal_pairs trace node rest (seen @ [val]) (snd r)))"
| "explore_pairs causal_pairs trace node val [] flag s = Inr (flag, s)"
| "explore_pairs causal_pairs trace node val (pair # rest) flag s =
     (if fst pair = val then
        (if fst pair \<in> set (heap s (used_nodes node)) \<or> snd pair \<in> set (heap s (used_nodes node))
         then explore_pairs causal_pairs trace node val rest flag s
         else if length (remove_binary_pattern pair (remaining_trace node))
                 = length (remaining_trace node)
         then explore_pairs causal_pairs trace node val rest flag s
         else (case explore_node causal_pairs trace
                      (fst (spawn_child node pair s)) (snd (spawn_child node pair s)) of
                 Inl e \<Rightarrow> Inl e
               | Inr s' \<Rightarrow> explore_pairs causal_pairs trace node val rest True s'))
      else explore_pairs causal_pairs trace node val rest flag s)"
  by pat_completeness auto
termination
proof -
  have lt: "length (remove_binary_pattern pair t) < length t"
    if "length (remove_binary_pattern pair t) \<noteq> length t" for pair t
  proof -
    have "length (remove_binary_pattern pair t) \<le> length t"
      unfolding remove_binary_pattern_def drop_positions_def
      using length_filter_le[of _ "[0..<length t]"] by simp
    with that show ?thesis by simp
  qed
  have rt: "remaining_trace (fst (spawn_child node pair s))
            = remove_binary_pattern pair (remaining_trace node)" for node pair s
    by (simp add: spawn_child_def Node_init_def Let_def split: option.splits)
  show ?thesis
    by (relation "measures
      [\<lambda>x. case x of Inl (cp, t, n, s) \<Rightarrow> length (remaining_trace n)
                 | Inr (Inl (cp, t, n, vs, seen, s)) \<Rightarrow> length (remaining_trace n)
                 | Inr (Inr (cp, t, n, v, ps, f, s)) \<Rightarrow> length (remaining_trace n),
       \<lambda>x. case x of Inl (cp, t, n, s) \<Rightarrow> 2
                 | Inr (Inl (cp, t, n, vs, seen, s)) \<Rightarrow> 1
                 | Inr (Inr (cp, t, n, v, ps, f, s)) \<Rightarrow> 0,
       \<lambda>x. case x of Inl (cp, t, n, s) \<Rightarrow> 0
                 | Inr (Inl (cp, t, n, vs, seen, s)) \<Rightarrow> length vs
                 | Inr (Inr (cp, t, n, v, ps, f, s)) \<Rightarrow> length ps]")
       (simp_all add: case_prod_beta rt lt)
qed

text \<open>
  \<open>find_binary_pattern(trace, successors_dict, group_name, groups, pairs)\<close>.  The last three
  arguments are not used by the function.  Two iteration orders of Python sets enter the
  result and are not fixed by the program: \<open>list(set(trace))\<close> and the loop over the set
  \<open>causal_pairs\<close>.  They are the arguments \<open>int_order\<close> and \<open>pair_order\<close>; for Python,
  \<open>int_order S\<close> and \<open>pair_order S\<close> list the elements of \<open>S\<close> without repetition.
  \<open>binary_pattern_search\<close> is the function up to the return of \<open>explore_node(root)\<close>, with
  the whole final state; \<open>find_binary_pattern\<close> returns \<open>route_acceptance_ratios\<close>.
\<close>

definition binary_pattern_search ::
  "(int set \<Rightarrow> int list) \<Rightarrow> (pair set \<Rightarrow> pair list) \<Rightarrow> int list \<Rightarrow> successors_dict
     \<Rightarrow> py_error + search" where
  "binary_pattern_search int_order pair_order trace sd =
     (let group_indices = int_order (set trace);
          causal_pairs = find_causal_pairs group_indices sd;
          root = Node_init trace [] None search_init
      in explore_node (pair_order causal_pairs) trace (fst root) (snd root))"

definition find_binary_pattern ::
  "(int set \<Rightarrow> int list) \<Rightarrow> (pair set \<Rightarrow> pair list) \<Rightarrow> int list \<Rightarrow> successors_dict
     \<Rightarrow> py_error + (pair list \<times> rat) list" where
  "find_binary_pattern int_order pair_order trace sd =
     (case binary_pattern_search int_order pair_order trace sd of
        Inl e \<Rightarrow> Inl e
      | Inr s \<Rightarrow> Inr (route_acceptance_ratios s))"

text \<open>
  The invariant of the search used in the proofs: every node entered so far holds a
  subsequence of the original trace, and every recorded ratio lies between 0 and 1.
\<close>

definition search_inv :: "int list \<Rightarrow> search \<Rightarrow> bool" where
  "search_inv trace s =
     ((\<forall>n\<in>set (explored s). subseq (remaining_trace n) trace) \<and>
      (\<forall>r\<in>set (route_acceptance_ratios s). 0 \<le> snd r \<and> snd r \<le> 1))"

text \<open>
  A second invariant used in the proofs: the remaining trace of every node entered is the
  original trace with the node's pairs removed in order, and every recorded route is the
  pair list of a node entered, scored from the length of that node's remaining trace.
\<close>

definition routes_scored :: "int list \<Rightarrow> search \<Rightarrow> bool" where
  "routes_scored trace s =
     ((\<forall>n\<in>set (explored s).
         remaining_trace n = fold remove_binary_pattern (used_pairs n) trace) \<and>
      (\<forall>r\<in>set (route_acceptance_ratios s). \<exists>n\<in>set (explored s).
         used_pairs n = fst r \<and>
         snd r = 1 - of_nat (length (remaining_trace n)) / of_nat (length trace)))"

section \<open>The pattern ratio scorer (\<open>find_acceptance_ratios\<close>)\<close>

text \<open>
  The variables of one pass of the \<open>while pointers\<close> loop.  \<open>remaining_trace\<close> of the pass is
  the field \<open>pass_trace\<close> (the name \<open>remaining_trace\<close> is the node's field above).
  \<open>pattern_acceptance_ratios\<close> lives across the passes and is threaded through.
  \<open>break_outer\<close> is \<open>False\<close> at the start of every iteration of the \<open>for\<close> loop, since both
  branches that test it reset it.
\<close>

record pass_state =
  used_numbers :: "int set"
  pass_trace :: "int list"
  patterns_to_remove :: "nat set"
  pattern_skip_count :: nat
  pattern_acceptance_ratios :: "(int list \<times> rat) list"

definition pass_init :: "int list \<Rightarrow> (int list \<times> rat) list \<Rightarrow> pass_state" where
  "pass_init trace ratios =
     \<lparr>used_numbers = {}, pass_trace = trace, patterns_to_remove = {}, pattern_skip_count = 0,
      pattern_acceptance_ratios = ratios\<rparr>"

text \<open>
  The loop \<open>for pointer_index, pointer in enumerate(pointers)\<close>.  The inner loop over the
  numbers of the pattern adds one to \<open>pattern_skip_count\<close> for every number that is in
  \<open>used_numbers\<close>; the pattern is passed over (\<open>continue\<close>) while the count is at most 15 and
  the pass ends (\<open>break\<close>) beyond.  A pattern that is tried is appended twice to the result
  (the source has the \<open>append\<close> line twice).  \<open>pattern_ratio\<close> is the \<open>if original != 0\<close>
  statement that computes \<open>acceptance_ratio\<close>.  \<open>Counter(xs)[num]\<close> is \<open>count_list xs num\<close>.
  Every pointer is below \<open>len(patterns)\<close>, so \<open>patterns[pointer]\<close> does not raise;
  \<open>remove_pattern_from_trace\<close> raises on an empty pattern.
\<close>

definition pattern_ratio :: "nat \<Rightarrow> nat \<Rightarrow> rat" where
  "pattern_ratio orphans original =
     (if original \<noteq> 0 then 1 - of_nat orphans / of_nat original else 0)"

fun acceptance_pass :: "int list list \<Rightarrow> nat list \<Rightarrow> pass_state \<Rightarrow> py_error + pass_state" where
  "acceptance_pass patterns [] st = Inr st"
| "acceptance_pass patterns (pointer # rest) st =
     (let pattern = patterns ! pointer;
          hits = length (filter (\<lambda>num. num \<in> used_numbers st) pattern);
          st1 = st\<lparr>pattern_skip_count := pattern_skip_count st + hits\<rparr>
      in if 0 < hits \<and> pattern_skip_count st1 \<le> 15 then acceptance_pass patterns rest st1
         else if 0 < hits then Inr st1
         else (case remove_pattern_from_trace (pass_trace st1) pattern of
                 Inl e \<Rightarrow> Inl e
               | Inr updated_remaining_trace \<Rightarrow>
                   (let orphans = sum_list (map (count_list updated_remaining_trace) pattern);
                        original = sum_list (map (count_list (pass_trace st1)) pattern);
                        ratio = pattern_ratio orphans original
                    in acceptance_pass patterns rest
                         (st1\<lparr>pass_trace := updated_remaining_trace,
                              pattern_acceptance_ratios :=
                                pattern_acceptance_ratios st1 @ [(pattern, ratio), (pattern, ratio)],
                              used_numbers := used_numbers st1 \<union> set pattern,
                              patterns_to_remove := insert pointer (patterns_to_remove st1)\<rparr>))))"

text \<open>
  The loop \<open>while pointers\<close>.  Nothing in its text bounds the number of passes, so it is a
  partial function: \<open>None\<close> stands for a loop that never ends, \<open>Some (Inl e)\<close> for an
  exception and \<open>Some (Inr ratios)\<close> for the returned list.
\<close>

partial_function (option) acceptance_loop ::
  "int list \<Rightarrow> int list list \<Rightarrow> nat list \<Rightarrow> (int list \<times> rat) list
     \<Rightarrow> (py_error + (int list \<times> rat) list) option" where
  "acceptance_loop trace patterns pointers ratios =
     (if pointers = [] then Some (Inr ratios)
      else (case acceptance_pass patterns pointers (pass_init trace ratios) of
              Inl e \<Rightarrow> Some (Inl e)
            | Inr st \<Rightarrow>
                acceptance_loop trace patterns
                  (filter (\<lambda>pointer. pointer \<notin> patterns_to_remove st) pointers)
                  (pattern_acceptance_ratios st)))"

declare acceptance_loop.simps [code]

definition find_acceptance_ratios ::
  "int list \<Rightarrow> int list list \<Rightarrow> (py_error + (int list \<times> rat) list) option" where
  "find_acceptance_ratios trace patterns =
     acceptance_loop trace patterns [0..<length patterns] []"

section \<open>Reading text (\<open>functions.py\<close>)\<close>

text \<open>
  The string methods of Python that the readers use, for text in ASCII.  \<open>py_isspace\<close> holds
  of the characters \<open>str.strip\<close> and \<open>str.split\<close> treat as whitespace: space, tab, line feed,
  vertical tab, form feed, carriage return and the separators \<open>0x1C\<close> to \<open>0x1F\<close>.
\<close>

definition py_isspace :: "char \<Rightarrow> bool" where
  "py_isspace c = ((of_char c :: nat) \<in> {9, 10, 11, 12, 13, 28, 29, 30, 31, 32})"

definition strip :: "string \<Rightarrow> string" where
  "strip s = rev (dropWhile py_isspace (rev (dropWhile py_isspace s)))"

text \<open>\<open>s.split(sep)\<close> for a one-character separator: the result is never empty.\<close>

fun split_char :: "char \<Rightarrow> string \<Rightarrow> string list" where
  "split_char sep [] = [[]]"
| "split_char sep (c # cs) =
     (if c = sep then [] # split_char sep cs
      else (c # hd (split_char sep cs)) # tl (split_char sep cs))"

text \<open>\<open>s.split()\<close>: the maximal runs of characters that are not whitespace.\<close>

fun split_words :: "string \<Rightarrow> string \<Rightarrow> string list" where
  "split_words cur [] = (if cur = [] then [] else [cur])"
| "split_words cur (c # cs) =
     (if py_isspace c then (if cur = [] then split_words [] cs else cur # split_words [] cs)
      else split_words (cur @ [c]) cs)"

definition split_whitespace :: "string \<Rightarrow> string list" where
  "split_whitespace s = split_words [] s"

text \<open>
  \<open>int(s)\<close> for a string: surrounding whitespace is dropped, then come an optional sign and
  decimal digits, where single underscores may stand between digits; anything else raises
  \<open>ValueError\<close>.
\<close>

definition is_digit :: "char \<Rightarrow> bool" where
  "is_digit c = (48 \<le> (of_char c :: nat) \<and> (of_char c :: nat) \<le> 57)"

definition digits_value :: "string \<Rightarrow> int" where
  "digits_value ds = foldl (\<lambda>acc c. 10 * acc + (int (of_char c) - 48)) 0 ds"

definition py_int :: "string \<Rightarrow> py_error + int" where
  "py_int s =
     (let t = strip s;
          negative = (t \<noteq> [] \<and> hd t = CHR ''-'');
          body = (if t \<noteq> [] \<and> (hd t = CHR ''-'' \<or> hd t = CHR ''+'') then tl t else t);
          groups = split_char (CHR ''_'') body
      in if list_all (\<lambda>g. g \<noteq> [] \<and> list_all is_digit g) groups
         then Inr ((if negative then - 1 else 1) * digits_value (concat groups))
         else Inl ValueError)"

text \<open>
  A list comprehension or generator whose element expression can raise: the elements are
  computed in order and the first exception ends the evaluation.
\<close>

fun map_result :: "('a \<Rightarrow> py_error + 'b) \<Rightarrow> 'a list \<Rightarrow> py_error + 'b list" where
  "map_result f [] = Inr []"
| "map_result f (x # xs) =
     (case f x of
        Inl e \<Rightarrow> Inl e
      | Inr y \<Rightarrow> (case map_result f xs of Inl e \<Rightarrow> Inl e | Inr ys \<Rightarrow> Inr (y # ys)))"

text \<open>
  \<open>read_trace_from_file\<close>, as a function of the text of the file:
  \<open>trace = file.read().strip().split()\<close> and \<open>[int(index) for index in trace]\<close>.
\<close>

definition read_trace_from_file :: "string \<Rightarrow> py_error + int list" where
  "read_trace_from_file content = map_result py_int (split_whitespace (strip content))"

text \<open>
  \<open>extract_groups_from_msg_file\<close>, as a function of the lines of the file.  The dict
  \<open>group_indices\<close> is an association list in insertion order.  \<open>tuple(sorted((src, dest)))\<close>
  is the pair of the smaller and the larger string; Python compares strings by code point,
  as the order on \<open>string\<close> does.
\<close>

type_synonym group_key = "string \<times> string"

fun append_index :: "group_key \<Rightarrow> int \<Rightarrow> (group_key \<times> int list) list \<Rightarrow> (group_key \<times> int list) list" where
  "append_index key v [] = [(key, [v])]"
| "append_index key v ((k, l) # rest) =
     (if k = key then (k, l @ [v]) # rest else (k, l) # append_index key v rest)"

fun group_lines :: "string list \<Rightarrow> (group_key \<times> int list) list \<Rightarrow> py_error + (group_key \<times> int list) list" where
  "group_lines [] group_indices = Inr group_indices"
| "group_lines (raw # rest) group_indices =
     (let line = strip raw in
      if line \<noteq> [] \<and> hd line = CHR ''#'' then group_lines rest group_indices
      else if line \<noteq> [] then
        (let parts = map strip (split_char (CHR '':'') line) in
         if length parts = 4 then
           (let index = parts ! 0; src_p = parts ! 1; dest_p = parts ! 2;
                key = (min src_p dest_p, max src_p dest_p)
            in case py_int index of
                 Inl e \<Rightarrow> Inl e
               | Inr v \<Rightarrow> group_lines rest (append_index key v group_indices))
         else group_lines rest group_indices)
      else group_lines rest group_indices)"

definition extract_groups_from_msg_file :: "string list \<Rightarrow> py_error + (string \<times> string \<times> int list) list" where
  "extract_groups_from_msg_file lines =
     (case group_lines lines [] of
        Inl e \<Rightarrow> Inl e
      | Inr group_indices \<Rightarrow>
          Inr (sorted_list_of_set
                 (set (map (\<lambda>(key, indices). (fst key, snd key, sort indices)) group_indices))))"

section \<open>The causality graph (\<open>construct_causality_graph\<close>)\<close>

text \<open>
  A message is a tuple \<open>(index, src, dest)\<close>; a section is a list of lines.  The index of a
  line is \<open>int(line.split(':')[0].strip())\<close>.
\<close>

type_synonym message = "int \<times> string \<times> string"

definition line_index :: "string \<Rightarrow> py_error + int" where
  "line_index line = py_int (strip (hd (split_char (CHR '':'') line)))"

definition section_indices :: "string list \<Rightarrow> py_error + int list" where
  "section_indices section = map_result line_index (filter (\<lambda>line. line \<noteq> []) section)"

text \<open>
  The body of the inner loop \<open>for _, s, d in messages\<close>.  The entry of \<open>index\<close> exists when
  the loop runs, since the outer loop creates it first.
\<close>

definition graph_edge ::
  "int set \<Rightarrow> int set \<Rightarrow> int \<Rightarrow> string \<Rightarrow> message \<Rightarrow> successors_dict \<Rightarrow> successors_dict" where
  "graph_edge initial_nodes terminating_nodes index dest_i m sd =
     (case m of (j, s, d) \<Rightarrow>
        if dest_i = s \<and> index \<notin> terminating_nodes \<and> j \<notin> initial_nodes then
          (let e = the (sd index);
               sd1 = sd(index \<mapsto> e\<lparr>successors := successors e @ [j]\<rparr>)
           in if sd1 j = None then sd1(j \<mapsto> \<lparr>src = s, dest = d, successors = []\<rparr>) else sd1)
        else sd)"

text \<open>The body of the outer loop \<open>for index, src, dest in messages\<close>.\<close>

definition graph_row ::
  "message list \<Rightarrow> int set \<Rightarrow> int set \<Rightarrow> message \<Rightarrow> successors_dict \<Rightarrow> successors_dict" where
  "graph_row messages initial_nodes terminating_nodes m sd =
     (case m of (index, src_i, dest_i) \<Rightarrow>
        fold (graph_edge initial_nodes terminating_nodes index dest_i) messages
          (if sd index = None then sd(index \<mapsto> \<lparr>src = src_i, dest = dest_i, successors = []\<rparr>)
           else sd))"

text \<open>
  \<open>construct_causality_graph(messages, sections)\<close>.  \<open>sections[0]\<close> raises \<open>IndexError\<close> when
  there is no section, and a line whose index is not an integer raises \<open>ValueError\<close>.  The
  first component of the result, the \<open>Data\<close> object built from \<open>edge_list\<close> by the tensor
  library, is left out: the model returns the initial nodes, the terminating nodes and the
  successor dictionary.
\<close>

definition construct_causality_graph ::
  "message list \<Rightarrow> string list list \<Rightarrow> py_error + int set \<times> int set \<times> successors_dict" where
  "construct_causality_graph messages sections =
     (if sections = [] then Inl IndexError
      else (case section_indices (hd sections) of
              Inl e \<Rightarrow> Inl e
            | Inr initial \<Rightarrow>
                (case section_indices (last sections) of
                   Inl e \<Rightarrow> Inl e
                 | Inr terminating \<Rightarrow>
                     Inr (set initial, set terminating,
                          fold (graph_row messages (set initial) (set terminating)) messages
                            Map.empty))))"

text \<open>
  For stating facts about the loops: the indices appended to the successors of \<open>index\<close>
  by one run of the inner loop over the messages \<open>ms\<close>.
\<close>

definition edge_targets :: "message list \<Rightarrow> int set \<Rightarrow> int set \<Rightarrow> int \<Rightarrow> string \<Rightarrow> int list" where
  "edge_targets ms initial_nodes terminating_nodes index dest_i =
     map fst (filter (\<lambda>m. dest_i = fst (snd m) \<and> index \<notin> terminating_nodes \<and> fst m \<notin> initial_nodes) ms)"

section \<open>Example inputs\<close>

text \<open>
  The successor dictionary of the two-message table \<open>0: cpu \<rightarrow> cache\<close>, \<open>25: cache \<rightarrow> cpu\<close>
  with 0 in the first section and 25 in the last: 25 is a successor of 0, and 25, being
  terminating, has no successor.
\<close>

definition scenario_successors :: successors_dict where
  "scenario_successors =
     [0 \<mapsto> \<lparr>src = ''cpu'', dest = ''cache'', successors = [25]\<rparr>,
      25 \<mapsto> \<lparr>src = ''cache'', dest = ''cpu'', successors = []\<rparr>]"

text \<open>
  A table with five messages, \<open>0: a \<rightarrow> b\<close>, \<open>1: d \<rightarrow> e\<close> in the first section and
  \<open>25: b \<rightarrow> c\<close>, \<open>2: e \<rightarrow> f\<close>, \<open>3: e \<rightarrow> g\<close> in the last: 25 follows 0, and both 2 and 3
  follow 1.
\<close>

definition branching_successors :: successors_dict where
  "branching_successors =
     [0 \<mapsto> \<lparr>src = ''a'', dest = ''b'', successors = [25]\<rparr>,
      25 \<mapsto> \<lparr>src = ''b'', dest = ''c'', successors = []\<rparr>,
      1 \<mapsto> \<lparr>src = ''d'', dest = ''e'', successors = [2, 3]\<rparr>,
      2 \<mapsto> \<lparr>src = ''e'', dest = ''f'', successors = []\<rparr>,
      3 \<mapsto> \<lparr>src = ''e'', dest = ''g'', successors = []\<rparr>]"

section \<open>Facts about dropping positions\<close>

lemma drop_positions_snoc:
  "drop_positions rm (xs @ [x]) = drop_positions rm xs @ (if length xs \<in> rm then [] else [x])"
  by (simp add: drop_positions_def nth_append cong: map_cong)

lemma drop_positions_nths: "drop_positions rm xs = nths xs (- rm)"
  by (induction xs rule: rev_induct) (simp_all add: drop_positions_snoc nths_append, simp add: drop_positions_def)

lemma drop_positions_subseq: "subseq (drop_positions rm xs) xs"
  unfolding drop_positions_nths subseq_conv_nths by blast

lemma drop_positions_Cons:
  "drop_positions rm (x # xs) = (if 0 \<in> rm then [] else [x]) @ drop_positions {i. Suc i \<in> rm} xs"
  by (simp add: drop_positions_nths nths_Cons) (metis (no_types, lifting) Collect_cong Collect_neg_eq)

lemma drop_positions_length_le: "length (drop_positions rm xs) \<le> length xs"
  by (simp add: drop_positions_def) (metis length_filter_le length_upt diff_zero)

lemma drop_positions_unchanged: "(\<forall>i\<in>rm. length xs \<le> i) \<Longrightarrow> drop_positions rm xs = xs"
proof (induction xs rule: rev_induct)
  case Nil then show ?case by (simp add: drop_positions_def)
next
  case (snoc x xs)
  then have "drop_positions rm xs = xs" by fastforce
  moreover have "length xs \<notin> rm" using snoc.prems by fastforce
  ultimately show ?case by (simp add: drop_positions_snoc)
qed

lemma drop_positions_shorter: "i \<in> rm \<Longrightarrow> i < length xs \<Longrightarrow> length (drop_positions rm xs) < length xs"
proof (induction xs rule: rev_induct)
  case Nil then show ?case by simp
next
  case (snoc x xs)
  have le: "length (drop_positions rm xs) \<le> length xs" by (rule drop_positions_length_le)
  show ?case
  proof (cases "i = length xs")
    case True with snoc.prems le show ?thesis by (simp add: drop_positions_snoc)
  next
    case False
    with snoc have "length (drop_positions rm xs) < length xs" by simp
    then show ?thesis by (simp add: drop_positions_snoc)
  qed
qed

lemma drop_positions_cong:
  "(\<And>i. i < length xs \<Longrightarrow> i \<in> A \<longleftrightarrow> i \<in> B) \<Longrightarrow> drop_positions A xs = drop_positions B xs"
  unfolding drop_positions_def by (rule arg_cong[where f = "map _"], rule filter_cong) auto

lemma drop_positions_first:
  "a \<in> set xs \<Longrightarrow> drop_positions {length (takeWhile (\<lambda>x. x \<noteq> a) xs)} xs = remove1 a xs"
proof (induction xs)
  case Nil then show ?case by simp
next
  case (Cons x xs)
  show ?case
  proof (cases "x = a")
    case True
    then show ?thesis by (simp add: drop_positions_Cons drop_positions_unchanged)
  next
    case False
    with Cons have "drop_positions {length (takeWhile (\<lambda>x. x \<noteq> a) xs)} xs = remove1 a xs" by simp
    with False show ?thesis by (simp add: drop_positions_Cons)
  qed
qed

section \<open>The pairing discipline of binary pattern removal\<close>

lemma pair_loop_toremove_prefix: "\<exists>ys. toremove (pair_loop ms i st) = toremove st @ ys"
proof (induction ms arbitrary: i st)
  case Nil then show ?case by simp
next
  case (Cons m ms)
  show ?case
  proof (cases "m = 1")
    case True
    with Cons[of "Suc i" "st\<lparr>firsthalf := firsthalf st @ [i]\<rparr>"] show ?thesis by simp
  next
    case m1: False
    show ?thesis
    proof (cases "m = 2 \<and> firsthalf st \<noteq> []")
      case False
      with m1 Cons[of "Suc i" st] show ?thesis by auto
    next
      case True
      define st1 where "st1 = (if hd (firsthalf st) < i
                    then st\<lparr>remove := hd (firsthalf st), firsthalf := tl (firsthalf st)\<rparr>
                    else st)"
      have t: "toremove st1 = toremove st" by (simp add: st1_def)
      from Cons[of "Suc i" "st1\<lparr>toremove := toremove st1 @ [remove st1, i]\<rparr>"]
      obtain ys where "toremove (pair_loop ms (Suc i) (st1\<lparr>toremove := toremove st1 @ [remove st1, i]\<rparr>)) = toremove st @ [remove st1, i] @ ys"
        using t by auto
      with True m1 show ?thesis by (simp add: st1_def Let_def)
    qed
  qed
qed

lemma pending_Cons:
  "filter (\<lambda>j. (x # xs) ! (j - i) = a) [i..<i + length (x # xs)] =
   (if x = a then [i] else []) @ filter (\<lambda>j. xs ! (j - Suc i) = a) [Suc i..<Suc i + length xs]"
proof -
  have shift: "filter (\<lambda>j. (x # xs) ! (j - i) = a) [Suc i..<Suc i + length xs]
             = filter (\<lambda>j. xs ! (j - Suc i) = a) [Suc i..<Suc i + length xs]"
  proof (rule filter_cong[OF refl])
    fix j assume "j \<in> set [Suc i..<Suc i + length xs]"
    then have "j - i = Suc (j - Suc i)" by auto
    then show "((x # xs) ! (j - i) = a) = (xs ! (j - Suc i) = a)" by simp
  qed
  have upt: "[i..<i + length (x # xs)] = i # [Suc i..<Suc i + length xs]"
    by (subst upt_conv_Cons) (simp_all del: upt_Suc)
  show ?thesis unfolding upt filter.simps shift by simp
qed

lemma pair_loop_pending:
  "a \<noteq> b \<Longrightarrow> b \<notin> set xs \<Longrightarrow>
   pair_loop (mark_trace (a, b) xs @ ms) i st =
   pair_loop ms (i + length xs)
     (st\<lparr>firsthalf := firsthalf st @ filter (\<lambda>j. xs ! (j - i) = a) [i..<i + length xs]\<rparr>)"
proof (induction xs arbitrary: i st)
  case Nil then show ?case by (simp add: mark_trace_def)
next
  case (Cons x xs)
  from Cons.prems have nb: "b \<notin> set xs" "x \<noteq> b" by auto
  note IH = Cons.IH[OF Cons.prems(1) nb(1)]
  show ?case
  proof (cases "x = a")
    case True
    have "pair_loop (mark_trace (a, b) (x # xs) @ ms) i st
        = pair_loop (mark_trace (a, b) xs @ ms) (Suc i) (st\<lparr>firsthalf := firsthalf st @ [i]\<rparr>)"
      using True by (simp add: mark_trace_def)
    also have "\<dots> = pair_loop ms (Suc i + length xs)
        (st\<lparr>firsthalf := firsthalf st @ [i] @ filter (\<lambda>j. xs ! (j - Suc i) = a) [Suc i..<Suc i + length xs]\<rparr>)"
      unfolding IH by simp
    finally show ?thesis unfolding pending_Cons using True by simp
  next
    case False
    have "pair_loop (mark_trace (a, b) (x # xs) @ ms) i st
        = pair_loop (mark_trace (a, b) xs @ ms) (Suc i) st"
      using False nb by (simp add: mark_trace_def)
    also have "\<dots> = pair_loop ms (Suc i + length xs)
        (st\<lparr>firsthalf := firsthalf st @ filter (\<lambda>j. xs ! (j - Suc i) = a) [Suc i..<Suc i + length xs]\<rparr>)"
      unfolding IH by simp
    finally show ?thesis unfolding pending_Cons using False by simp
  qed
qed

lemma takeWhile_length_less:
  "a \<in> set xs \<Longrightarrow> length (takeWhile (\<lambda>x. x \<noteq> a) xs) < length xs"
  by (induction xs) auto

lemma first_position:
  "a \<in> set xs \<Longrightarrow> \<exists>ps. filter (\<lambda>j. xs ! j = a) [0..<length xs] = length (takeWhile (\<lambda>x. x \<noteq> a) xs) # ps"
proof (induction xs rule: rev_induct)
  case Nil then show ?case by simp
next
  case (snoc x xs)
  have f: "filter (\<lambda>j. (xs @ [x]) ! j = a) [0..<length xs] = filter (\<lambda>j. xs ! j = a) [0..<length xs]"
    by (rule filter_cong) (auto simp: nth_append)
  have split: "filter (\<lambda>j. (xs @ [x]) ! j = a) [0..<length (xs @ [x])]
     = filter (\<lambda>j. xs ! j = a) [0..<length xs] @ (if x = a then [length xs] else [])"
    using f by simp
  show ?case
  proof (cases "a \<in> set xs")
    case True
    with snoc obtain ps where "filter (\<lambda>j. xs ! j = a) [0..<length xs] = length (takeWhile (\<lambda>x. x \<noteq> a) xs) # ps" by blast
    with True show ?thesis unfolding split by (simp add: takeWhile_append1)
  next
    case False
    then have e: "filter (\<lambda>j. xs ! j = a) [0..<length xs] = []" by (auto simp: filter_empty_conv)
    from False snoc.prems have xa: "x = a" by simp
    have "takeWhile (\<lambda>x. x \<noteq> a) (xs @ [x]) = xs @ takeWhile (\<lambda>x. x \<noteq> a) [x]"
      using False by (subst takeWhile_append2) auto
    then have "length (takeWhile (\<lambda>x. x \<noteq> a) (xs @ [x])) = length xs" using xa by simp
    then show ?thesis unfolding split e using xa by simp
  qed
qed

lemma first_pair_removed:
  assumes "a \<noteq> b" "a \<in> set pre" "b \<notin> set pre"
  shows "take 2 (binary_toremove (a, b) (pre @ b # post)) =
           [length (takeWhile (\<lambda>x. x \<noteq> a) pre), length pre]
       \<and> remove_binary_pattern (a, b) (pre @ [b]) = remove1 a pre"
proof -
  let ?k = "length (takeWhile (\<lambda>x. x \<noteq> a) pre)"
  obtain ps where ps: "filter (\<lambda>j. pre ! j = a) [0..<length pre] = ?k # ps"
    using first_position[OF assms(2)] by blast
  have kl: "?k < length pre"
    by (rule takeWhile_length_less[OF assms(2)])
  have run: "pair_loop (mark_trace (a, b) (pre @ b # post)) 0 pairing_init
      = pair_loop (mark_trace (a, b) post) (Suc (length pre))
          \<lparr>firsthalf = ps, remove = ?k, toremove = [?k, length pre]\<rparr>" for post
  proof -
    have "mark_trace (a, b) (pre @ b # post) = mark_trace (a, b) pre @ 2 # mark_trace (a, b) post"
      using assms(1) by (simp add: mark_trace_def)
    then show ?thesis
      using pair_loop_pending[OF assms(1) assms(3), of "2 # mark_trace (a, b) post" 0 pairing_init] kl
      by (simp add: ps pairing_init_def)
  qed
  obtain ys where ys: "binary_toremove (a, b) (pre @ b # post) = [?k, length pre] @ ys"
    unfolding binary_toremove_def run
    using pair_loop_toremove_prefix[of "mark_trace (a, b) post" "Suc (length pre)"
        "\<lparr>firsthalf = ps, remove = ?k, toremove = [?k, length pre]\<rparr>"] by auto
  have "binary_toremove (a, b) (pre @ [b]) = [?k, length pre]"
    unfolding binary_toremove_def run by (simp add: mark_trace_def)
  then have "remove_binary_pattern (a, b) (pre @ [b]) = drop_positions {?k, length pre} (pre @ [b])"
    by (simp add: remove_binary_pattern_def)
  also have "\<dots> = drop_positions {?k, length pre} pre" by (simp add: drop_positions_snoc)
  also have "\<dots> = drop_positions {?k} pre"
    by (rule drop_positions_cong) auto
  also have "\<dots> = remove1 a pre" by (rule drop_positions_first[OF assms(2)])
  finally show ?thesis using ys by simp
qed

lemma pair_loop_append:
  "pair_loop (ms1 @ ms2) i st = pair_loop ms2 (i + length ms1) (pair_loop ms1 i st)"
proof (induction ms1 arbitrary: i st)
  case Nil then show ?case by simp
next
  case (Cons m ms1)
  show ?case by (simp add: Cons.IH Let_def)
qed

lemma pending_positions_snoc:
  "pending_positions a (pre @ [x]) removed =
     pending_positions a pre removed @
     (if x = a \<and> length pre \<notin> set removed then [length pre] else [])"
proof -
  have "filter (\<lambda>i. (pre @ [x]) ! i = a \<and> i \<notin> set removed) [0..<length pre]
      = filter (\<lambda>i. pre ! i = a \<and> i \<notin> set removed) [0..<length pre]"
    by (rule filter_cong) (auto simp: nth_append)
  then show ?thesis by (simp add: pending_positions_def)
qed

lemma pending_positions_bound: "i \<in> set (pending_positions a pre removed) \<Longrightarrow> i < length pre"
  by (simp add: pending_positions_def)

lemma pending_positions_sorted: "sorted_wrt (<) (pending_positions a pre removed)"
  unfolding pending_positions_def by (rule sorted_wrt_filter) simp

lemma pending_positions_hd_least:
  assumes "i \<in> set (pending_positions a pre removed)"
  shows "hd (pending_positions a pre removed) \<le> i"
proof -
  from assms obtain p ps where ps: "pending_positions a pre removed = p # ps"
    by (cases "pending_positions a pre removed") auto
  with pending_positions_sorted[of a pre removed] have "\<forall>q\<in>set ps. p < q" by simp
  with assms ps show ?thesis by auto
qed

lemma pending_positions_consume:
  assumes "pending_positions a pre removed = p # ps" and "length pre \<le> n"
  shows "pending_positions a pre (removed @ [p, n]) = ps"
proof -
  from pending_positions_sorted[of a pre removed] assms(1) have gt: "\<forall>q\<in>set ps. p < q" by simp
  have bd: "\<forall>q\<in>set (p # ps). q < n"
    using pending_positions_bound[of _ a pre removed] assms by fastforce
  have "pending_positions a pre (removed @ [p, n])
      = filter (\<lambda>i. i \<noteq> p \<and> i \<noteq> n) (pending_positions a pre removed)"
    unfolding pending_positions_def filter_filter by (rule filter_cong) auto
  also have "\<dots> = filter (\<lambda>i. i \<noteq> p \<and> i \<noteq> n) (p # ps)" by (simp only: assms(1))
  also have "\<dots> = filter (\<lambda>i. i \<noteq> p \<and> i \<noteq> n) ps" by simp
  also have "\<dots> = ps" using gt bd by (intro filter_True) auto
  finally show ?thesis .
qed

lemma pair_loop_invariant:
  assumes ab: "a \<noteq> b"
  shows "firsthalf (pair_loop (mark_trace (a, b) pre) 0 pairing_init)
           = pending_positions a pre (toremove (pair_loop (mark_trace (a, b) pre) 0 pairing_init))
       \<and> (\<forall>i\<in>set (toremove (pair_loop (mark_trace (a, b) pre) 0 pairing_init)). i < length pre)"
proof (induction pre rule: rev_induct)
  case Nil
  show ?case by (simp add: mark_trace_def pairing_init_def pending_positions_def)
next
  case (snoc x pre)
  let ?st = "pair_loop (mark_trace (a, b) pre) 0 pairing_init"
  let ?n = "length pre"
  from snoc have fh: "firsthalf ?st = pending_positions a pre (toremove ?st)"
    and bd: "\<forall>i\<in>set (toremove ?st). i < ?n" by simp_all
  from bd have nn: "?n \<notin> set (toremove ?st)" by auto
  have run: "pair_loop (mark_trace (a, b) (pre @ [x])) 0 pairing_init
      = pair_loop (mark_trace (a, b) [x]) ?n ?st"
    using pair_loop_append[of "mark_trace (a, b) pre" "mark_trace (a, b) [x]" 0 pairing_init]
    by (simp add: mark_trace_def)
  show ?case
  proof (cases "x = a")
    case True
    then have "pair_loop (mark_trace (a, b) [x]) ?n ?st = ?st\<lparr>firsthalf := firsthalf ?st @ [?n]\<rparr>"
      by (simp add: mark_trace_def)
    with True fh bd nn show ?thesis unfolding run
      by (auto simp: pending_positions_snoc less_Suc_eq)
  next
    case xa: False
    show ?thesis
    proof (cases "x = b \<and> firsthalf ?st \<noteq> []")
      case True
      then obtain p ps where ps: "firsthalf ?st = p # ps" by (cases "firsthalf ?st") auto
      with fh have pp: "pending_positions a pre (toremove ?st) = p # ps" by simp
      then have pn: "p < ?n" using pending_positions_bound[of p a pre "toremove ?st"] by simp
      have st': "pair_loop (mark_trace (a, b) [x]) ?n ?st
          = ?st\<lparr>remove := p, firsthalf := ps, toremove := toremove ?st @ [p, ?n]\<rparr>"
        using True xa ab ps pn by (simp add: mark_trace_def Let_def)
      have "pending_positions a (pre @ [x]) (toremove ?st @ [p, ?n]) = ps"
        using pending_positions_consume[OF pp, of ?n] xa by (simp add: pending_positions_snoc)
      with bd pn show ?thesis unfolding run st' by (auto simp: less_Suc_eq)
    next
      case False
      then have "pair_loop (mark_trace (a, b) [x]) ?n ?st = ?st"
        using xa by (auto simp: mark_trace_def)
      with xa fh bd show ?thesis unfolding run
        by (auto simp: pending_positions_snoc less_Suc_eq)
    qed
  qed
qed

section \<open>Buckets, cursors and occurrences\<close>

lemma init_buckets_apply:
  "init_buckets pattern v = (if v \<in> set pattern then Some [] else None)"
  unfolding init_buckets_def by (induction pattern) auto

lemma fill_buckets_apply:
  "fill_buckets b i xs v =
     (case b v of None \<Rightarrow> None
      | Some l \<Rightarrow> Some (l @ filter (\<lambda>j. xs ! (j - i) = v) [i..<i + length xs]))"
proof (induction xs arbitrary: b i)
  case Nil then show ?case by (simp split: option.splits)
next
  case (Cons x xs)
  show ?case
  proof (cases "b x")
    case None
    then have "fill_buckets b i (x # xs) v = fill_buckets b (Suc i) xs v" by simp
    also have "\<dots> = (case b v of None \<Rightarrow> None
      | Some l \<Rightarrow> Some (l @ filter (\<lambda>j. xs ! (j - Suc i) = v) [Suc i..<Suc i + length xs]))"
      by (rule Cons.IH)
    finally show ?thesis unfolding pending_Cons using None by (auto split: option.splits)
  next
    case (Some l0)
    then have "fill_buckets b i (x # xs) v = fill_buckets (b(x \<mapsto> l0 @ [i])) (Suc i) xs v" by simp
    also have "\<dots> = (case (b(x \<mapsto> l0 @ [i])) v of None \<Rightarrow> None
      | Some l \<Rightarrow> Some (l @ filter (\<lambda>j. xs ! (j - Suc i) = v) [Suc i..<Suc i + length xs]))"
      by (rule Cons.IH)
    finally show ?thesis unfolding pending_Cons using Some by (auto split: option.splits)
  qed
qed

lemma buckets_positions:
  "fill_buckets (init_buckets pattern) 0 trace v =
     (if v \<in> set pattern then Some (positions v trace) else None)"
  by (simp add: fill_buckets_apply init_buckets_apply positions_def)

lemma positions_set: "set (positions v xs) = {i. i < length xs \<and> xs ! i = v}"
  by (auto simp: positions_def)

lemma positions_sorted: "sorted_wrt (<) (positions v xs)"
  unfolding positions_def by (rule sorted_wrt_filter) simp

lemma advance_step:
  "p < length bucket \<Longrightarrow> bucket ! p \<le> l \<Longrightarrow> advance bucket l p = advance bucket l (Suc p)"
  by (subst advance.simps) simp

lemma advance_stop:
  "\<not> (p < length bucket \<and> bucket ! p \<le> l) \<Longrightarrow> advance bucket l p = p"
  by (subst advance.simps) auto

lemma advance_ge: "p \<le> advance bucket l p"
proof (induction bucket l p rule: advance.induct)
  case (1 bucket l p)
  show ?case
  proof (cases "p < length bucket \<and> bucket ! p \<le> l")
    case True
    with 1 have "Suc p \<le> advance bucket l (Suc p)" by simp
    with True show ?thesis by (simp add: advance_step)
  next
    case False then show ?thesis by (simp add: advance_stop)
  qed
qed

lemma advance_exit:
  "advance bucket l p < length bucket \<Longrightarrow> l < bucket ! advance bucket l p"
proof (induction bucket l p rule: advance.induct)
  case (1 bucket l p)
  show ?case
  proof (cases "p < length bucket \<and> bucket ! p \<le> l")
    case True
    then have e: "advance bucket l p = advance bucket l (Suc p)" by (simp add: advance_step)
    with 1 True show ?thesis by simp
  next
    case False
    then have e: "advance bucket l p = p" by (rule advance_stop)
    with 1 False show ?thesis by simp
  qed
qed

lemma advance_skipped:
  "p \<le> k \<Longrightarrow> k < advance bucket l p \<Longrightarrow> bucket ! k \<le> l"
proof (induction bucket l p rule: advance.induct)
  case (1 bucket l p)
  show ?case
  proof (cases "p < length bucket \<and> bucket ! p \<le> l")
    case True
    then have e: "advance bucket l p = advance bucket l (Suc p)" by (simp add: advance_step)
    show ?thesis
    proof (cases "k = p")
      case True with \<open>p < length bucket \<and> bucket ! p \<le> l\<close> show ?thesis by simp
    next
      case False
      with 1 True e show ?thesis by simp
    qed
  next
    case False
    then have e: "advance bucket l p = p" by (rule advance_stop)
    with 1 show ?thesis by simp
  qed
qed

lemma advance_le: "p \<le> length bucket \<Longrightarrow> advance bucket l p \<le> length bucket"
proof (induction bucket l p rule: advance.induct)
  case (1 bucket l p)
  show ?case
  proof (cases "p < length bucket \<and> bucket ! p \<le> l")
    case True
    then have e: "advance bucket l p = advance bucket l (Suc p)" by (simp add: advance_step)
    with 1 True show ?thesis by simp
  next
    case False
    then have e: "advance bucket l p = p" by (rule advance_stop)
    with 1 show ?thesis by simp
  qed
qed

text \<open>From cursor 0 in a sorted bucket, the entry found is the least one above l.\<close>
lemma advance_least:
  assumes "sorted_wrt (<) bucket" "q \<in> set bucket" "l < q"
  shows "advance bucket l 0 < length bucket \<and> bucket ! advance bucket l 0 \<le> q"
proof -
  let ?p = "advance bucket l 0"
  from assms(2) obtain k where k: "k < length bucket" "bucket ! k = q" by (auto simp: in_set_conv_nth)
  have "\<not> k < ?p" using advance_skipped[of 0 k bucket l] k assms(3) by auto
  then have pk: "?p \<le> k" by simp
  with k have lt: "?p < length bucket" by simp
  have "bucket ! ?p \<le> bucket ! k"
  proof (cases "?p = k")
    case True then show ?thesis by simp
  next
    case False
    with pk have "?p < k" by simp
    with assms(1) k(1) have "bucket ! ?p < bucket ! k" by (simp add: sorted_wrt_nth_less)
    then show ?thesis by simp
  qed
  with lt k show ?thesis by simp
qed

lemma indexed_subseq:
  "sorted_wrt (<) js \<Longrightarrow> \<forall>i\<in>set js. i < length xs \<Longrightarrow> subseq (map ((!) xs) js) xs"
proof (induction xs arbitrary: js rule: rev_induct)
  case Nil then show ?case by (cases js) auto
next
  case (snoc x xs)
  show ?case
  proof (cases "js = [] \<or> last js < length xs")
    case True
    have all: "\<forall>i\<in>set js. i < length xs"
    proof
      fix i assume i: "i \<in> set js"
      with True have ne: "js \<noteq> []" and l: "last js < length xs" by auto
      from i obtain k where k: "k < length js" "js ! k = i" by (auto simp: in_set_conv_nth)
      have "js ! k \<le> js ! (length js - 1)"
      proof (cases "k = length js - 1")
        case True then show ?thesis by simp
      next
        case False
        with k have "k < length js - 1" by simp
        with snoc.prems(1) ne have "js ! k < js ! (length js - 1)"
          by (simp add: sorted_wrt_nth_less)
        then show ?thesis by simp
      qed
      with ne l k show "i < length xs" by (simp add: last_conv_nth)
    qed
    then have eq: "map ((!) (xs @ [x])) js = map ((!) xs) js" by (simp add: nth_append)
    have "subseq (map ((!) xs) js) xs" using snoc.IH[OF snoc.prems(1) all] .
    then have "subseq (map ((!) xs) js @ []) (xs @ [x])"
      by (rule list_emb_append_mono) simp
    then show ?thesis unfolding eq by simp
  next
    case False
    then have ne: "js \<noteq> []" and l: "\<not> last js < length xs" by auto
    from ne snoc.prems(2) have "last js < length (xs @ [x])" using last_in_set by blast
    with l have le: "last js = length xs" by simp
    have js: "js = butlast js @ [length xs]" using ne le by (metis append_butlast_last_id)
    with snoc.prems(1) have s: "sorted_wrt (<) (butlast js)" and b: "\<forall>i\<in>set (butlast js). i < length xs"
      by (metis sorted_wrt_append, metis sorted_wrt_append list.set_intros(1))
    have "map ((!) (xs @ [x])) js = map ((!) (xs @ [x])) (butlast js) @ [x]"
      by (subst js) simp
    also have "map ((!) (xs @ [x])) (butlast js) = map ((!) xs) (butlast js)"
      using b by (simp add: nth_append)
    finally have eq: "map ((!) (xs @ [x])) js = map ((!) xs) (butlast js) @ [x]" .
    have "subseq (map ((!) xs) (butlast js) @ [x]) (xs @ [x])"
      using snoc.IH[OF s b] by (rule list_emb_append_mono) simp
    then show ?thesis unfolding eq .
  qed
qed

lemma greedy_first:
  "v \<notin> set pre \<Longrightarrow> subseq (v # ps) (pre @ v # post) \<Longrightarrow> subseq ps post"
  by (induction pre) (auto simp: subseq_Cons2_iff split: if_splits)

lemma match_slots_sound:
  assumes bk: "\<And>v. v \<in> set pattern \<Longrightarrow> b v = Some (positions v trace)"
  shows "match_slots b pattern js ptrs cur = (ptrs', cur', True) \<Longrightarrow>
         \<forall>j\<in>set js. j < length pattern \<Longrightarrow> cur \<noteq> [] \<Longrightarrow>
         sorted_wrt (<) cur \<Longrightarrow> \<forall>i\<in>set cur. i < length trace \<Longrightarrow>
         sorted_wrt (<) cur' \<and> (\<forall>i\<in>set cur'. i < length trace) \<and>
         map ((!) trace) cur' = map ((!) trace) cur @ map ((!) pattern) js"
proof (induction js arbitrary: ptrs cur)
  case Nil then show ?case by simp
next
  case (Cons j js)
  let ?bucket = "positions (pattern ! j) trace"
  let ?p = "advance ?bucket (last cur) (ptrs ! j)"
  from Cons.prems(2) have jl: "j < length pattern" by simp
  then have bj: "the (b (pattern ! j)) = ?bucket" by (simp add: bk)
  show ?case
  proof (cases "?p < length ?bucket")
    case False
    with Cons.prems(1) bj show ?thesis by (simp add: Let_def)
  next
    case True
    let ?q = "?bucket ! ?p"
    from True Cons.prems(1) bj
    have rec: "match_slots b pattern js (ptrs[j := Suc ?p]) (cur @ [?q]) = (ptrs', cur', True)"
      by (simp add: Let_def)
    have qin: "?q \<in> set ?bucket" using True by simp
    then have q: "?q < length trace" "trace ! ?q = pattern ! j" by (auto simp: positions_set)
    have lq: "last cur < ?q" using True by (rule advance_exit)
    have below: "\<forall>i\<in>set cur. i < ?q"
    proof
      fix i assume i: "i \<in> set cur"
      then obtain k where k: "k < length cur" "cur ! k = i" by (auto simp: in_set_conv_nth)
      have "cur ! k \<le> cur ! (length cur - 1)"
      proof (cases "k = length cur - 1")
        case True then show ?thesis by simp
      next
        case False
        with k have "k < length cur - 1" by simp
        with Cons.prems(4) Cons.prems(3) have "cur ! k < cur ! (length cur - 1)"
          by (simp add: sorted_wrt_nth_less)
        then show ?thesis by simp
      qed
      with Cons.prems(3) lq k show "i < ?q" by (simp add: last_conv_nth)
    qed
    have s: "sorted_wrt (<) (cur @ [?q])" using Cons.prems(4) below by (simp add: sorted_wrt_append)
    have bd: "\<forall>i\<in>set (cur @ [?q]). i < length trace" using Cons.prems(5) q(1) by simp
    have js: "\<forall>j\<in>set js. j < length pattern" using Cons.prems(2) by simp
    from Cons.IH[OF rec js _ s bd] q(2) show ?thesis by simp
  qed
qed

lemma last_is_max:
  "sorted_wrt (<) (cur :: nat list) \<Longrightarrow> i \<in> set cur \<Longrightarrow> i \<le> last cur"
  by (induction cur) (auto split: if_splits simp: less_imp_le)

lemma match_starts_mono: "rm \<subseteq> match_starts b pattern starts ptrs rm"
proof (induction starts arbitrary: ptrs rm)
  case Nil then show ?case by simp
next
  case (Cons index rest)
  obtain ptrs' cur valid where m: "match_slots b pattern [1..<length pattern] ptrs [index] = (ptrs', cur, valid)"
    by (metis prod_cases3)
  let ?rm' = "if valid \<and> length cur = length pattern then rm \<union> set cur else rm"
  have "rm \<subseteq> ?rm'" by auto
  also have "?rm' \<subseteq> match_starts b pattern rest ptrs' ?rm'" by (rule Cons.IH)
  finally show ?case using m by simp
qed

lemma tl_nths: "map ((!) pattern) [1..<length pattern] = tl pattern"
proof (cases pattern)
  case Nil then show ?thesis by simp
next
  case (Cons x xs)
  have "map ((!) (x # xs)) [Suc 0..<Suc (length xs)] = map ((!) xs) [0..<length xs]"
    unfolding map_Suc_upt[symmetric] by simp
  then show ?thesis using Cons by (simp add: map_nth)
qed

lemma match_starts_sound:
  assumes bk: "\<And>v. v \<in> set pattern \<Longrightarrow> b v = Some (positions v trace)"
    and ne: "pattern \<noteq> []" and no: "\<not> subseq pattern trace"
  shows "set starts \<subseteq> set (positions (pattern ! 0) trace) \<Longrightarrow>
         match_starts b pattern starts ptrs rm = rm"
proof (induction starts arbitrary: ptrs)
  case Nil then show ?case by simp
next
  case (Cons index rest)
  obtain ptrs' cur valid where m: "match_slots b pattern [1..<length pattern] ptrs [index] = (ptrs', cur, valid)"
    by (metis prod_cases3)
  from Cons.prems have ix: "index < length trace" "trace ! index = pattern ! 0"
    by (auto simp: positions_set)
  have "\<not> valid"
  proof
    assume valid
    with m have m': "match_slots b pattern [1..<length pattern] ptrs [index] = (ptrs', cur, True)" by simp
    have "sorted_wrt (<) cur \<and> (\<forall>i\<in>set cur. i < length trace) \<and>
         map ((!) trace) cur = map ((!) trace) [index] @ map ((!) pattern) [1..<length pattern]"
      by (rule match_slots_sound[OF bk m']) (use ix in auto)
    moreover have "map ((!) trace) [index] @ map ((!) pattern) [1..<length pattern] = pattern"
    proof -
      have "map ((!) trace) [index] = [pattern ! 0]" using ix by simp
      moreover have "[pattern ! 0] @ tl pattern = pattern" using ne by (cases pattern) simp_all
      ultimately show ?thesis by (simp only: tl_nths)
    qed
    ultimately have "subseq pattern trace" using indexed_subseq[of cur trace] by simp
    with no show False by simp
  qed
  with m Cons show ?case by simp
qed

lemma subseq_head_in: "subseq (v # ps) ys \<Longrightarrow> v \<in> set ys"
  by (induction ys) (auto simp: subseq_Cons2_iff split: if_splits)

text \<open>Skipping to the first occurrence of v after position l keeps the rest embeddable.\<close>
lemma greedy_next:
  assumes sub: "subseq (v # ps) (drop (Suc l) trace)"
    and q: "l < q" "q < length trace" "trace ! q = v"
    and least: "\<And>r. l < r \<Longrightarrow> r < q \<Longrightarrow> trace ! r \<noteq> v"
  shows "subseq ps (drop (Suc q) trace)"
proof -
  let ?ys = "drop (Suc l) trace"
  let ?m = "q - Suc l"
  have m: "?m < length ?ys" using q by simp
  have ym: "?ys ! ?m = v" using q by simp
  have dr: "drop (Suc ?m) ?ys = drop (Suc q) trace" using q by simp
  have split: "?ys = take ?m ?ys @ v # drop (Suc q) trace"
    using id_take_nth_drop[OF m] ym dr by simp
  have "v \<notin> set (take ?m ?ys)"
  proof
    assume "v \<in> set (take ?m ?ys)"
    then obtain i where i: "i < ?m" "?ys ! i = v"
      by (auto simp: in_set_conv_nth)
    then have "trace ! (Suc l + i) = v" using q by simp
    moreover have "l < Suc l + i" "Suc l + i < q" using i by auto
    ultimately show False using least by blast
  qed
  then show ?thesis using sub greedy_first[of v "take ?m ?ys" ps "drop (Suc q) trace"] split by metis
qed

lemma match_slots_complete:
  assumes bk: "\<And>v. v \<in> set pattern \<Longrightarrow> b v = Some (positions v trace)"
  shows "j \<le> length pattern \<Longrightarrow> length ptrs = length pattern \<Longrightarrow>
         \<forall>k. j \<le> k \<and> k < length pattern \<longrightarrow> ptrs ! k = 0 \<Longrightarrow> cur \<noteq> [] \<Longrightarrow>
         subseq (drop j pattern) (drop (Suc (last cur)) trace) \<Longrightarrow>
         \<exists>ptrs' cur'. match_slots b pattern [j..<length pattern] ptrs cur = (ptrs', cur', True)
            \<and> length cur' = length cur + (length pattern - j) \<and> hd cur' = hd cur"
proof (induction "length pattern - j" arbitrary: j ptrs cur)
  case 0
  then show ?case by simp
next
  case (Suc d)
  from Suc.hyps(2) have jl: "j < length pattern" by simp
  let ?v = "pattern ! j"
  let ?bucket = "positions ?v trace"
  let ?l = "last cur"
  let ?p = "advance ?bucket ?l 0"
  let ?q = "?bucket ! ?p"
  have bj: "the (b ?v) = ?bucket" using jl by (simp add: bk)
  have pj: "ptrs ! j = 0" using Suc.prems(3) jl by simp
  have dj: "drop j pattern = ?v # drop (Suc j) pattern" using jl by (simp add: Cons_nth_drop_Suc)
  with Suc.prems(5) have sub: "subseq (?v # drop (Suc j) pattern) (drop (Suc ?l) trace)" by simp
  then have "?v \<in> set (drop (Suc ?l) trace)" by (rule subseq_head_in)
  then obtain i where i: "i < length (drop (Suc ?l) trace)" "drop (Suc ?l) trace ! i = ?v"
    by (auto simp: in_set_conv_nth)
  then have q0: "Suc ?l + i \<in> set ?bucket" "?l < Suc ?l + i"
    by (auto simp: positions_set)
  have pl: "?p < length ?bucket" using advance_least[OF positions_sorted q0] by simp
  then have qin: "?q \<in> set ?bucket" by simp
  then have q: "?q < length trace" "trace ! ?q = ?v" by (auto simp: positions_set)
  have lq: "?l < ?q" using pl by (rule advance_exit)
  have least: "trace ! r \<noteq> ?v" if "?l < r" "r < ?q" for r
  proof
    assume "trace ! r = ?v"
    with that q have "r \<in> set ?bucket" by (auto simp: positions_set)
    from advance_least[OF positions_sorted this that(1)] that(2) show False by simp
  qed
  have sub': "subseq (drop (Suc j) pattern) (drop (Suc ?q) trace)"
    using greedy_next[OF sub lq q least] by blast
  have upt: "[j..<length pattern] = j # [Suc j..<length pattern]" using jl by (rule upt_conv_Cons)
  have step: "match_slots b pattern [j..<length pattern] ptrs cur
      = match_slots b pattern [Suc j..<length pattern] (ptrs[j := Suc ?p]) (cur @ [?q])"
    unfolding upt using bj pj pl by (simp add: Let_def)
  have d: "d = length pattern - Suc j" using Suc.hyps(2) by simp
  have zeros: "\<forall>k. Suc j \<le> k \<and> k < length pattern \<longrightarrow> ptrs[j := Suc ?p] ! k = 0"
    using Suc.prems(3) by auto
  from Suc.hyps(1)[OF d, of "ptrs[j := Suc ?p]" "cur @ [?q]"] jl Suc.prems(2) zeros sub'
  obtain ptrs' cur' where
    r: "match_slots b pattern [Suc j..<length pattern] (ptrs[j := Suc ?p]) (cur @ [?q]) = (ptrs', cur', True)"
       "length cur' = length (cur @ [?q]) + (length pattern - Suc j)" "hd cur' = hd (cur @ [?q])"
    by auto
  with step jl Suc.prems(4) show ?case by auto
qed

lemma pattern_removed_first:
  assumes ne: "pattern \<noteq> []" and sub: "subseq pattern trace"
  shows "\<exists>i \<in> pattern_to_remove trace pattern. i < length trace"
proof -
  let ?b = "fill_buckets (init_buckets pattern) 0 trace"
  let ?v = "pattern ! 0"
  let ?p0 = "length (takeWhile (\<lambda>x. x \<noteq> ?v) trace)"
  have bk: "\<And>v. v \<in> set pattern \<Longrightarrow> ?b v = Some (positions v trace)"
    by (simp add: buckets_positions)
  have pat: "?v # drop 1 pattern = pattern" using ne by (cases pattern) simp_all
  have sub0: "subseq (?v # drop 1 pattern) trace" unfolding pat by (rule sub)
  then have vin: "?v \<in> set trace" by (rule subseq_head_in)
  from first_position[OF vin] obtain ps where ps: "positions ?v trace = ?p0 # ps"
    unfolding positions_def by blast
  have p0: "?p0 < length trace" using vin by (rule takeWhile_length_less)
  define tw where "tw = takeWhile (\<lambda>x. x \<noteq> ?v) trace"
  define rest where "rest = drop (Suc ?p0) trace"
  have tr: "trace = tw @ ?v # rest"
  proof -
    have "dropWhile (\<lambda>x. x \<noteq> ?v) trace = drop ?p0 trace" by (simp add: dropWhile_eq_drop)
    moreover have "drop ?p0 trace = trace ! ?p0 # drop (Suc ?p0) trace"
      using p0 by (simp add: Cons_nth_drop_Suc)
    moreover have "trace ! ?p0 = ?v" using nth_length_takeWhile[OF p0] by simp
    moreover have "trace = takeWhile (\<lambda>x. x \<noteq> ?v) trace @ dropWhile (\<lambda>x. x \<noteq> ?v) trace" by simp
    ultimately show ?thesis unfolding tw_def rest_def by metis
  qed
  have nin: "?v \<notin> set tw" unfolding tw_def by (auto dest: set_takeWhileD)
  have "subseq (?v # drop 1 pattern) (tw @ ?v # rest)" using sub0 tr by simp
  then have "subseq (drop 1 pattern) rest" by (rule greedy_first[OF nin])
  then have sub1: "subseq (drop 1 pattern) (drop (Suc (last [?p0])) trace)"
    unfolding rest_def by simp
  have "1 \<le> length pattern" using ne by (cases pattern) simp_all
  from match_slots_complete[of pattern ?b trace 1 "replicate (length pattern) 0" "[?p0]", OF bk this _ _ _ sub1]
  obtain ptrs' cur' where
    m: "match_slots ?b pattern [1..<length pattern] (replicate (length pattern) 0) [?p0] = (ptrs', cur', True)"
       "length cur' = length [?p0] + (length pattern - 1)" "hd cur' = hd [?p0]"
    by auto
  from m(2) ne have len: "length cur' = length pattern" "cur' \<noteq> []" by (cases pattern; auto)+
  with m(3) have "?p0 \<in> set cur'" by (metis hd_in_set list.sel(1))
  moreover have "set cur' \<subseteq> match_starts ?b pattern ps ptrs' ({} \<union> set cur')"
    using match_starts_mono[of "{} \<union> set cur'"] by simp
  moreover have "pattern_to_remove trace pattern = match_starts ?b pattern ps ptrs' ({} \<union> set cur')"
  proof -
    have "?v \<in> set pattern" using ne by (cases pattern) simp_all
    then have "the (?b ?v) = ?p0 # ps" using bk ps by simp
    then have "pattern_to_remove trace pattern
       = match_starts ?b pattern (?p0 # ps) (replicate (length pattern) 0) {}"
      unfolding pattern_to_remove_def Let_def by simp
    also have "\<dots> = match_starts ?b pattern ps ptrs' ({} \<union> set cur')"
      using m(1) len(1) by simp
    finally show ?thesis .
  qed
  ultimately have "?p0 \<in> pattern_to_remove trace pattern" by blast
  with p0 show ?thesis by blast
qed

section \<open>Causal pairs\<close>

lemma isCausal_sym: "isCausal a b sd = isCausal b a sd"
  by (auto simp: isCausal_def)

lemma causal_pairs_step_sound:
  "(a, b) \<in> causal_pairs_step indices sd i j cp \<Longrightarrow> (a, b) \<in> cp \<or> isCausal a b sd"
  by (auto simp: causal_pairs_step_def Let_def split: if_splits)

lemma causal_pairs_step_sym: "sym cp \<Longrightarrow> sym (causal_pairs_step indices sd i j cp)"
  using isCausal_sym[of "indices ! i" "indices ! j" sd]
  by (auto simp: causal_pairs_step_def Let_def sym_def)

lemma causal_pairs_inner_sound:
  "(a, b) \<in> fold (causal_pairs_step indices sd i) js cp \<Longrightarrow> (a, b) \<in> cp \<or> isCausal a b sd"
  by (induction js arbitrary: cp) (auto dest: causal_pairs_step_sound)

lemma causal_pairs_inner_sym:
  "sym cp \<Longrightarrow> sym (fold (causal_pairs_step indices sd i) js cp)"
  by (induction js arbitrary: cp) (auto intro: causal_pairs_step_sym)

lemma causal_pairs_outer_sound:
  "(a, b) \<in> fold (\<lambda>i. fold (causal_pairs_step indices sd i) (js i)) is cp
     \<Longrightarrow> (a, b) \<in> cp \<or> isCausal a b sd"
  by (induction "is" arbitrary: cp) (auto dest: causal_pairs_inner_sound)

lemma causal_pairs_outer_sym:
  "sym cp \<Longrightarrow> sym (fold (\<lambda>i. fold (causal_pairs_step indices sd i) (js i)) is cp)"
  by (induction "is" arbitrary: cp) (auto intro: causal_pairs_inner_sym)

section \<open>The invariant of the decomposition search\<close>

lemma remove_binary_pattern_subseq: "subseq (remove_binary_pattern pair trace) trace"
  unfolding remove_binary_pattern_def by (rule drop_positions_subseq)

lemma spawn_child_remaining:
  "remaining_trace (fst (spawn_child node pair s)) = remove_binary_pattern pair (remaining_trace node)"
  by (simp add: spawn_child_def Node_init_def Let_def split: option.splits)

lemma spawn_child_used_pairs:
  "used_pairs (fst (spawn_child node pair s)) = used_pairs node @ [pair]"
  by (simp add: spawn_child_def Node_init_def Let_def split: option.splits)

lemma spawn_child_explored: "explored (snd (spawn_child node pair s)) = explored s"
  by (simp add: spawn_child_def Node_init_def heap_append_def Let_def split: option.splits)

lemma spawn_child_routes:
  "route_acceptance_ratios (snd (spawn_child node pair s)) = route_acceptance_ratios s"
  by (simp add: spawn_child_def Node_init_def heap_append_def Let_def split: option.splits)

lemma spawn_child_inv: "search_inv trace (snd (spawn_child node pair s)) = search_inv trace s"
  by (simp add: search_inv_def spawn_child_explored spawn_child_routes)

lemma ratio_bounds:
  assumes "trace \<noteq> []" "subseq remaining trace"
  shows "\<exists>q. calculate_acceptance_ratio remaining trace = Inr q \<and> 0 \<le> q \<and> q \<le> 1"
proof -
  have "length remaining \<le> length trace" using assms(2) by (rule list_emb_length)
  then have "(of_nat (length remaining) :: rat) / of_nat (length trace) \<le> 1"
    using assms(1) by (simp add: divide_le_eq_1)
  moreover have "0 \<le> (of_nat (length remaining) :: rat) / of_nat (length trace)" by simp
  ultimately show ?thesis using assms(1) by (simp add: calculate_acceptance_ratio_def)
qed

lemma explore_inv:
  "trace \<noteq> [] \<Longrightarrow> subseq (remaining_trace node) trace \<Longrightarrow> search_inv trace s \<Longrightarrow>
     \<exists>s'. explore_node causal_pairs trace node s = Inr s' \<and> search_inv trace s'"
  "trace \<noteq> [] \<Longrightarrow> subseq (remaining_trace node) trace \<Longrightarrow> search_inv trace s \<Longrightarrow>
     \<exists>r. explore_values causal_pairs trace node vs seen s = Inr r \<and> search_inv trace (snd r)"
  "trace \<noteq> [] \<Longrightarrow> subseq (remaining_trace node) trace \<Longrightarrow> search_inv trace s \<Longrightarrow>
     \<exists>r. explore_pairs causal_pairs trace node val ps flag s = Inr r \<and> search_inv trace (snd r)"
proof (induction causal_pairs trace node s and causal_pairs trace node vs seen s
       and causal_pairs trace node val ps flag s
       rule: explore_node_explore_values_explore_pairs.induct)
  case (1 causal_pairs trace node s)
  have "search_inv trace (s\<lparr>explored := explored s @ [node]\<rparr>)"
    using 1(3,4) by (simp add: search_inv_def)
  from 1(1)[OF 1(2) 1(3) this] obtain r where
    r: "explore_values causal_pairs trace node (remaining_trace node) []
          (s\<lparr>explored := explored s @ [node]\<rparr>) = Inr r" "search_inv trace (snd r)" by blast
  from ratio_bounds[OF 1(2) 1(3)] obtain q where
    q: "calculate_acceptance_ratio (remaining_trace node) trace = Inr q" "0 \<le> q" "q \<le> 1" by blast
  show ?case using r q by (simp add: search_inv_def)
next
  case (2 causal_pairs trace node seen s)
  then show ?case by simp
next
  case (3 causal_pairs trace node val rest seen s)
  show ?case
  proof (cases "val \<in> set (heap s (used_nodes node))")
    case True
    with 3(1)[OF True 3(5,6,7)] show ?thesis by simp
  next
    case nu: False
    show ?thesis
    proof (cases "val \<in> set seen")
      case True
      with nu 3(2)[OF nu True 3(5,6,7)] show ?thesis by simp
    next
      case ns: False
      from 3(3)[OF nu ns 3(5,6,7)] obtain r where
        r: "explore_pairs causal_pairs trace node val causal_pairs False s = Inr r"
           "search_inv trace (snd r)" by blast
      show ?thesis
      proof (cases "fst r")
        case True
        with nu ns r show ?thesis by simp
      next
        case False
        from 3(4)[OF nu ns r(1) False 3(5,6) r(2)] nu ns r False show ?thesis by simp
      qed
    qed
  qed
next
  case (4 causal_pairs trace node val flag s)
  then show ?case by simp
next
  case (5 causal_pairs trace node val pair rest flag s)
  show ?case
  proof (cases "fst pair = val")
    case False
    with 5(5)[OF False 5(6,7,8)] show ?thesis by simp
  next
    case eq: True
    show ?thesis
    proof (cases "fst pair \<in> set (heap s (used_nodes node)) \<or> snd pair \<in> set (heap s (used_nodes node))")
      case True
      with eq 5(1)[OF eq True 5(6,7,8)] show ?thesis by simp
    next
      case nu: False
      show ?thesis
      proof (cases "length (remove_binary_pattern pair (remaining_trace node)) = length (remaining_trace node)")
        case True
        with eq nu 5(2)[OF eq nu True 5(6,7,8)] show ?thesis by simp
      next
        case ne: False
        have sub: "subseq (remaining_trace (fst (spawn_child node pair s))) trace"
          unfolding spawn_child_remaining
          using remove_binary_pattern_subseq 5(7) by (rule subseq_order.order_trans)
        have inv: "search_inv trace (snd (spawn_child node pair s))"
          using 5(8) by (simp add: spawn_child_inv)
        from 5(3)[OF eq nu ne 5(6) sub inv] obtain s' where
          s': "explore_node causal_pairs trace (fst (spawn_child node pair s)) (snd (spawn_child node pair s)) = Inr s'"
              "search_inv trace s'" by blast
        from 5(4)[OF eq nu ne s'(1) 5(6,7) s'(2)] eq nu ne s'(1) show ?thesis by simp
      qed
    qed
  qed
qed

lemma root_node:
  "fst (Node_init trace [] None search_init)
     = \<lparr>remaining_trace = trace, used_pairs = [], acceptance_ratio = None, used_nodes = 0\<rparr>"
  "search_inv trace (snd (Node_init trace [] None search_init))"
  by (simp_all add: Node_init_def search_init_def search_inv_def)

lemma binary_pattern_search_inv:
  assumes "trace \<noteq> []"
  shows "\<exists>s. binary_pattern_search int_order pair_order trace sd = Inr s \<and> search_inv trace s"
proof -
  have "subseq (remaining_trace (fst (Node_init trace [] None search_init))) trace"
    by (simp add: root_node(1))
  from explore_inv(1)[OF assms this root_node(2)]
  show ?thesis by (simp add: binary_pattern_search_def Let_def)
qed

lemma binary_pattern_search_empty:
  "binary_pattern_search int_order pair_order [] sd = Inl ZeroDivisionError"
  by (simp add: binary_pattern_search_def Let_def root_node(1) calculate_acceptance_ratio_def)

lemma spawn_child_aliases:
  assumes "heap s (used_nodes node) \<noteq> []"
  shows "used_nodes (fst (spawn_child node pair s)) = used_nodes node"
    and "heap (snd (spawn_child node pair s)) (used_nodes node)
           = heap s (used_nodes node) @ [fst pair, snd pair]"
  using assms by (simp_all add: spawn_child_def Node_init_def heap_append_def Let_def)

lemma spawn_child_fresh:
  assumes "heap s (used_nodes node) = []"
  shows "used_nodes (fst (spawn_child node pair s)) = next_ref s"
    and "heap (snd (spawn_child node pair s)) (next_ref s) = [fst pair, snd pair]"
  using assms by (simp_all add: spawn_child_def Node_init_def heap_append_def Let_def)

lemma routes_scored_enter:
  assumes "routes_scored trace s"
    and "remaining_trace node = fold remove_binary_pattern (used_pairs node) trace"
  shows "routes_scored trace (s\<lparr>explored := explored s @ [node]\<rparr>)"
  using assms by (auto simp: routes_scored_def)

lemma routes_scored_leaf:
  assumes "routes_scored trace s" and "node \<in> set (explored s)"
    and "calculate_acceptance_ratio (remaining_trace node) trace = Inr ratio"
  shows "routes_scored trace
           (s\<lparr>route_acceptance_ratios := route_acceptance_ratios s @ [(used_pairs node, ratio)]\<rparr>)"
proof -
  from assms(3) have "ratio = 1 - of_nat (length (remaining_trace node)) / of_nat (length trace)"
    by (auto simp: calculate_acceptance_ratio_def split: if_splits)
  then have new: "\<exists>n\<in>set (explored s). used_pairs n = fst (used_pairs node, ratio) \<and>
      snd (used_pairs node, ratio) = 1 - of_nat (length (remaining_trace n)) / of_nat (length trace)"
    using assms(2) by auto
  have old: "\<forall>r\<in>set (route_acceptance_ratios s). \<exists>n\<in>set (explored s).
      used_pairs n = fst r \<and>
      snd r = 1 - of_nat (length (remaining_trace n)) / of_nat (length trace)"
    using assms(1) unfolding routes_scored_def by (rule conjunct2)
  have ex: "\<forall>n\<in>set (explored s).
         remaining_trace n = fold remove_binary_pattern (used_pairs n) trace"
    using assms(1) unfolding routes_scored_def by (rule conjunct1)
  have "\<forall>r\<in>set (route_acceptance_ratios s @ [(used_pairs node, ratio)]). \<exists>n\<in>set (explored s).
      used_pairs n = fst r \<and>
      snd r = 1 - of_nat (length (remaining_trace n)) / of_nat (length trace)"
  proof
    fix r assume "r \<in> set (route_acceptance_ratios s @ [(used_pairs node, ratio)])"
    then have "r \<in> set (route_acceptance_ratios s) \<or> r = (used_pairs node, ratio)" by auto
    then show "\<exists>n\<in>set (explored s). used_pairs n = fst r \<and>
      snd r = 1 - of_nat (length (remaining_trace n)) / of_nat (length trace)"
      using old new by blast
  qed
  with ex show ?thesis unfolding routes_scored_def by simp
qed

lemma spawn_child_scored:
  "routes_scored trace (snd (spawn_child node pair s)) = routes_scored trace s"
  by (simp add: routes_scored_def spawn_child_explored spawn_child_routes)

lemma explore_scored:
  "remaining_trace node = fold remove_binary_pattern (used_pairs node) trace \<Longrightarrow>
   routes_scored trace s \<Longrightarrow> explore_node causal_pairs trace node s = Inr s' \<Longrightarrow>
     routes_scored trace s' \<and> set (explored s) \<subseteq> set (explored s') \<and> node \<in> set (explored s')"
  "remaining_trace node = fold remove_binary_pattern (used_pairs node) trace \<Longrightarrow>
   routes_scored trace s \<Longrightarrow> explore_values causal_pairs trace node vs seen s = Inr r \<Longrightarrow>
     routes_scored trace (snd r) \<and> set (explored s) \<subseteq> set (explored (snd r))"
  "remaining_trace node = fold remove_binary_pattern (used_pairs node) trace \<Longrightarrow>
   routes_scored trace s \<Longrightarrow> explore_pairs causal_pairs trace node val ps flag s = Inr r \<Longrightarrow>
     routes_scored trace (snd r) \<and> set (explored s) \<subseteq> set (explored (snd r))"
proof (induction causal_pairs trace node s and causal_pairs trace node vs seen s
       and causal_pairs trace node val ps flag s
       arbitrary: s' and r and r
       rule: explore_node_explore_values_explore_pairs.induct)
  case (1 causal_pairs trace node s)
  let ?s0 = "s\<lparr>explored := explored s @ [node]\<rparr>"
  have s0: "routes_scored trace ?s0" using 1(3,2) by (rule routes_scored_enter)
  from 1(4) obtain r where
    r: "explore_values causal_pairs trace node (remaining_trace node) [] ?s0 = Inr r"
    by (auto split: sum.splits)
  from 1(1)[OF 1(2) s0 r] have q: "routes_scored trace (snd r)"
    "set (explored ?s0) \<subseteq> set (explored (snd r))" by simp_all
  then have nin: "node \<in> set (explored (snd r))" by auto
  show ?case
  proof (cases "fst r")
    case True
    with 1(4) r have "s' = snd r" by simp
    with q nin show ?thesis by auto
  next
    case False
    with 1(4) r obtain ratio where
      ratio: "calculate_acceptance_ratio (remaining_trace node) trace = Inr ratio"
      and s': "s' = (snd r)\<lparr>route_acceptance_ratios :=
                  route_acceptance_ratios (snd r) @ [(used_pairs node, ratio)]\<rparr>"
      by (auto split: sum.splits)
    from routes_scored_leaf[OF q(1) nin ratio] q(2) nin show ?thesis unfolding s' by auto
  qed
next
  case (2 causal_pairs trace node seen s)
  then show ?case by auto
next
  case (3 causal_pairs trace node val rest seen s)
  show ?case
  proof (cases "val \<in> set (heap s (used_nodes node))")
    case True
    with 3(7) have "explore_values causal_pairs trace node rest seen s = Inr r" by simp
    from 3(1)[OF True 3(5,6) this] show ?thesis .
  next
    case nu: False
    show ?thesis
    proof (cases "val \<in> set seen")
      case True
      with nu 3(7) have "explore_values causal_pairs trace node rest seen s = Inr r" by simp
      from 3(2)[OF nu True 3(5,6) this] show ?thesis .
    next
      case ns: False
      from 3(7) nu ns obtain b where
        b: "explore_pairs causal_pairs trace node val causal_pairs False s = Inr b"
        by (auto split: sum.splits)
      from 3(3)[OF nu ns 3(5,6) b] have q: "routes_scored trace (snd b)"
        "set (explored s) \<subseteq> set (explored (snd b))" by simp_all
      show ?thesis
      proof (cases "fst b")
        case True
        with 3(7) nu ns b have "r = (True, snd b)" by simp
        with q show ?thesis by simp
      next
        case False
        with 3(7) nu ns b have
          "explore_values causal_pairs trace node rest (seen @ [val]) (snd b) = Inr r" by simp
        from 3(4)[OF nu ns b False 3(5) q(1) this] q(2) show ?thesis by auto
      qed
    qed
  qed
next
  case (4 causal_pairs trace node val flag s)
  then show ?case by auto
next
  case (5 causal_pairs trace node val pair rest flag s)
  show ?case
  proof (cases "fst pair = val")
    case False
    with 5(8) have "explore_pairs causal_pairs trace node val rest flag s = Inr r" by simp
    from 5(5)[OF False 5(6,7) this] show ?thesis .
  next
    case eq: True
    show ?thesis
    proof (cases "fst pair \<in> set (heap s (used_nodes node)) \<or> snd pair \<in> set (heap s (used_nodes node))")
      case True
      with eq 5(8) have "explore_pairs causal_pairs trace node val rest flag s = Inr r" by simp
      from 5(1)[OF eq True 5(6,7) this] show ?thesis .
    next
      case nu: False
      show ?thesis
      proof (cases "length (remove_binary_pattern pair (remaining_trace node)) = length (remaining_trace node)")
        case True
        with eq nu 5(8) have "explore_pairs causal_pairs trace node val rest flag s = Inr r" by simp
        from 5(2)[OF eq nu True 5(6,7) this] show ?thesis .
      next
        case ne: False
        let ?c = "fst (spawn_child node pair s)"
        let ?sc = "snd (spawn_child node pair s)"
        have cok: "remaining_trace ?c = fold remove_binary_pattern (used_pairs ?c) trace"
          using 5(6) by (simp add: spawn_child_remaining spawn_child_used_pairs)
        have sc: "routes_scored trace ?sc" using 5(7) by (simp add: spawn_child_scored)
        from 5(8) eq nu ne obtain b where
          b: "explore_node causal_pairs trace ?c ?sc = Inr b"
          and rest: "explore_pairs causal_pairs trace node val rest True b = Inr r"
          by (auto split: sum.splits)
        from 5(3)[OF eq nu ne cok sc b] have q: "routes_scored trace b"
          "set (explored ?sc) \<subseteq> set (explored b)" by simp_all
        from 5(4)[OF eq nu ne b 5(6) q(1) rest] q(2) show ?thesis
          by (auto simp: spawn_child_explored)
      qed
    qed
  qed
qed

lemma binary_pattern_search_scored:
  assumes "binary_pattern_search int_order pair_order trace sd = Inr s"
  shows "routes_scored trace s"
proof -
  let ?root = "Node_init trace [] None search_init"
  have r: "remaining_trace (fst ?root) = fold remove_binary_pattern (used_pairs (fst ?root)) trace"
    by (simp add: root_node(1))
  have i: "routes_scored trace (snd ?root)"
    by (simp add: routes_scored_def Node_init_def search_init_def)
  from assms have "explore_node (pair_order (find_causal_pairs (int_order (set trace)) sd)) trace
      (fst ?root) (snd ?root) = Inr s"
    by (simp add: binary_pattern_search_def Let_def)
  from explore_scored(1)[OF r i this] show ?thesis by simp
qed

section \<open>Evaluating the search on concrete traces\<close>

lemma find_binary_pattern_unfold:
  "find_binary_pattern int_order pair_order trace sd =
     (case explore_node (pair_order (find_causal_pairs (int_order (set trace)) sd)) trace
             (fst (Node_init trace [] None search_init))
             (snd (Node_init trace [] None search_init)) of
        Inl e \<Rightarrow> Inl e
      | Inr s \<Rightarrow> Inr (route_acceptance_ratios s))"
  by (simp add: find_binary_pattern_def binary_pattern_search_def Let_def)

lemma distinct_two:
  assumes "distinct xs" "set xs = {x, y}" "x \<noteq> y"
  shows "xs = [x, y] \<or> xs = [y, x]"
proof -
  have "length xs = card {x, y}" using assms(1,2) by (metis distinct_card)
  then have "length xs = 2" using assms(3) by simp
  then obtain a b where xs: "xs = [a, b]"
    by (cases xs; cases "tl xs"; cases "tl (tl xs)") auto
  with assms(2) have "{a, b} = {x, y}" by simp
  then have "(a = x \<and> b = y) \<or> (a = y \<and> b = x)" by (auto simp: doubleton_eq_iff)
  with xs show ?thesis by auto
qed

lemma scenario5_pairs:
  assumes "25 \<in> set (successors_of sd 0)"
  shows "find_causal_pairs [0, 25] sd = {(0, 25), (25, 0)}"
    and "find_causal_pairs [25, 0] sd = {(0, 25), (25, 0)}"
  using assms by (auto simp: find_causal_pairs_def causal_pairs_step_def isCausal_def)

lemma scenario5_explore:
  "(case explore_node [(0, 25), (25, 0)] [0, 25, 0, 25]
           (fst (Node_init [0, 25, 0, 25] [] None search_init))
           (snd (Node_init [0, 25, 0, 25] [] None search_init)) of
      Inl e \<Rightarrow> Inl e
    | Inr s \<Rightarrow> Inr (route_acceptance_ratios s)) = Inr [([(0, 25)], 1)]"
  "(case explore_node [(25, 0), (0, 25)] [0, 25, 0, 25]
           (fst (Node_init [0, 25, 0, 25] [] None search_init))
           (snd (Node_init [0, 25, 0, 25] [] None search_init)) of
      Inl e \<Rightarrow> Inl e
    | Inr s \<Rightarrow> Inr (route_acceptance_ratios s)) = Inr [([(0, 25)], 1)]"
  by code_simp+

section \<open>Passes of the ratio scorer\<close>

lemma acceptance_pass_mono:
  "acceptance_pass patterns pointers st = Inr st' \<Longrightarrow>
     patterns_to_remove st \<subseteq> patterns_to_remove st'"
proof (induction pointers arbitrary: st)
  case Nil then show ?case by simp
next
  case (Cons pointer rest)
  let ?pattern = "patterns ! pointer"
  let ?hits = "length (filter (\<lambda>num. num \<in> used_numbers st) ?pattern)"
  let ?st1 = "st\<lparr>pattern_skip_count := pattern_skip_count st + ?hits\<rparr>"
  show ?case
  proof (cases "0 < ?hits")
    case True
    show ?thesis
    proof (cases "pattern_skip_count ?st1 \<le> 15")
      case le: True
      with True Cons.prems have "acceptance_pass patterns rest ?st1 = Inr st'"
        by (simp add: Let_def)
      from Cons.IH[OF this] show ?thesis by simp
    next
      case False
      with True Cons.prems have "st' = ?st1" by (simp add: Let_def)
      then show ?thesis by simp
    qed
  next
    case False
    then have h: "?hits = 0" by simp
    from Cons.prems h obtain updated where
      u: "remove_pattern_from_trace (pass_trace st) ?pattern = Inr updated"
      by (cases "remove_pattern_from_trace (pass_trace st) ?pattern") (simp_all add: Let_def)
    let ?orphans = "sum_list (map (count_list updated) ?pattern)"
    let ?original = "sum_list (map (count_list (pass_trace st)) ?pattern)"
    let ?ratio = "pattern_ratio ?orphans ?original"
    let ?st2 = "?st1\<lparr>pass_trace := updated,
                   pattern_acceptance_ratios :=
                     pattern_acceptance_ratios ?st1 @ [(?pattern, ?ratio), (?pattern, ?ratio)],
                   used_numbers := used_numbers ?st1 \<union> set ?pattern,
                   patterns_to_remove := insert pointer (patterns_to_remove ?st1)\<rparr>"
    from Cons.prems h u have "acceptance_pass patterns rest ?st2 = Inr st'"
      by (simp add: Let_def)
    from Cons.IH[OF this] show ?thesis by auto
  qed
qed

lemma acceptance_pass_first:
  assumes "acceptance_pass patterns (pointer # rest) (pass_init trace ratios) = Inr st'"
  shows "pointer \<in> patterns_to_remove st'"
proof -
  let ?pattern = "patterns ! pointer"
  let ?st1 = "(pass_init trace ratios)\<lparr>pattern_skip_count := 0\<rparr>"
  have h: "length (filter (\<lambda>num. num \<in> used_numbers (pass_init trace ratios)) ?pattern) = 0"
    by (simp add: pass_init_def)
  from assms h obtain updated where
    u: "remove_pattern_from_trace trace ?pattern = Inr updated"
    by (cases "remove_pattern_from_trace trace ?pattern") (simp_all add: Let_def pass_init_def)
  let ?orphans = "sum_list (map (count_list updated) ?pattern)"
  let ?original = "sum_list (map (count_list trace) ?pattern)"
  let ?ratio = "pattern_ratio ?orphans ?original"
  let ?st2 = "\<lparr>used_numbers = set ?pattern, pass_trace = updated,
               patterns_to_remove = {pointer}, pattern_skip_count = 0,
               pattern_acceptance_ratios = ratios @ [(?pattern, ?ratio), (?pattern, ?ratio)]\<rparr>"
  from assms u have "acceptance_pass patterns rest ?st2 = Inr st'"
    by (simp add: Let_def pass_init_def)
  from acceptance_pass_mono[OF this] show ?thesis by simp
qed

lemma acceptance_pass_shrinks:
  assumes "pointers \<noteq> []"
    and "acceptance_pass patterns pointers (pass_init trace ratios) = Inr st'"
  shows "length (filter (\<lambda>pointer. pointer \<notin> patterns_to_remove st') pointers) < length pointers"
proof -
  from assms(1) obtain pointer rest where p: "pointers = pointer # rest" by (cases pointers) auto
  from assms(2)[unfolded p] have "pointer \<in> patterns_to_remove st'"
    by (rule acceptance_pass_first)
  then show ?thesis unfolding p by (intro length_filter_less[of pointer]) auto
qed

lemma acceptance_loop_returns:
  "\<exists>result. acceptance_loop trace patterns pointers ratios = Some result"
proof (induction "length pointers" arbitrary: pointers ratios rule: less_induct)
  case less
  show ?case
  proof (cases "pointers = []")
    case True
    then show ?thesis by (subst acceptance_loop.simps) simp
  next
    case ne: False
    show ?thesis
    proof (cases "acceptance_pass patterns pointers (pass_init trace ratios)")
      case (Inl e)
      with ne show ?thesis by (subst acceptance_loop.simps) simp
    next
      case (Inr st)
      let ?rest = "filter (\<lambda>pointer. pointer \<notin> patterns_to_remove st) pointers"
      have "length ?rest < length pointers" using ne Inr by (rule acceptance_pass_shrinks)
      from less[OF this, of "pattern_acceptance_ratios st"]
      obtain result where "acceptance_loop trace patterns ?rest (pattern_acceptance_ratios st) = Some result"
        by blast
      with ne Inr show ?thesis by (subst acceptance_loop.simps) simp
    qed
  qed
qed

section \<open>The loops of the causality graph\<close>

lemma map_result_set:
  "map_result f xs = Inr ys \<Longrightarrow> set ys = {y. \<exists>x\<in>set xs. f x = Inr y}"
proof (induction xs arbitrary: ys)
  case Nil then show ?case by simp
next
  case (Cons x xs)
  from Cons.prems obtain y ys' where
    y: "f x = Inr y" "map_result f xs = Inr ys'" "ys = y # ys'"
    by (auto split: sum.splits)
  from Cons.IH[OF y(2)] y show ?case by auto
qed

lemma map_result_returns:
  "\<forall>x\<in>set xs. \<exists>y. f x = Inr y \<Longrightarrow> \<exists>ys. map_result f xs = Inr ys"
  by (induction xs) auto

lemma graph_edge_fold:
  assumes "sd index \<noteq> None"
  shows "(fold (graph_edge ini ter index dest_i) ms sd) index \<noteq> None \<and>
         successors_of (fold (graph_edge ini ter index dest_i) ms sd) k =
           successors_of sd k @ (if k = index then edge_targets ms ini ter index dest_i else [])"
  using assms
proof (induction ms arbitrary: sd)
  case Nil then show ?case by (simp add: edge_targets_def)
next
  case (Cons m ms)
  obtain j s d where m: "m = (j, s, d)" by (cases m) auto
  let ?sd1 = "graph_edge ini ter index dest_i m sd"
  from Cons.prems obtain e where e: "sd index = Some e" by auto
  have ne: "?sd1 index \<noteq> None" using e by (simp add: graph_edge_def m Let_def)
  have step: "successors_of ?sd1 k = successors_of sd k @
      (if k = index then edge_targets [m] ini ter index dest_i else [])"
    using e by (auto simp: graph_edge_def m Let_def successors_of_def edge_targets_def)
  have app: "edge_targets (m # ms) ini ter index dest_i
      = edge_targets [m] ini ter index dest_i @ edge_targets ms ini ter index dest_i"
    by (simp add: edge_targets_def)
  from Cons.IH[of ?sd1, OF ne] step show ?case by (simp add: app)
qed

lemma graph_row_successors:
  "successors_of (graph_row messages ini ter (index, src_i, dest_i) sd) k =
     successors_of sd k @ (if k = index then edge_targets messages ini ter index dest_i else [])"
proof -
  let ?sd0 = "if sd index = None then sd(index \<mapsto> \<lparr>src = src_i, dest = dest_i, successors = []\<rparr>) else sd"
  have ne: "?sd0 index \<noteq> None" by simp
  have "successors_of ?sd0 k = successors_of sd k" by (auto simp: successors_of_def)
  with graph_edge_fold[of ?sd0 index ini ter dest_i messages k, OF ne] show ?thesis
    by (simp add: graph_row_def)
qed

lemma graph_rows_successors:
  "successors_of (fold (graph_row messages ini ter) ms sd) k =
     successors_of sd k @
     concat (map (\<lambda>m. if k = fst m then edge_targets messages ini ter (fst m) (snd (snd m)) else []) ms)"
proof (induction ms arbitrary: sd)
  case Nil then show ?case by simp
next
  case (Cons m ms)
  obtain index src_i dest_i where m: "m = (index, src_i, dest_i)" by (cases m) auto
  show ?case unfolding m by (simp add: Cons.IH graph_row_successors)
qed

lemma graph_successors_iff:
  assumes wf: "\<forall>m\<in>set messages. \<forall>m'\<in>set messages. fst m = fst m' \<longrightarrow> m = m'"
    and i: "(i, si, di) \<in> set messages" and j: "(j, sj, dj) \<in> set messages"
  shows "(j \<in> set (successors_of (fold (graph_row messages ini ter) messages Map.empty) i))
         = (di = sj \<and> i \<notin> ter \<and> j \<notin> ini)"
proof
  have e: "successors_of Map.empty i = []" by (simp add: successors_of_def)
  assume "j \<in> set (successors_of (fold (graph_row messages ini ter) messages Map.empty) i)"
  then have "j \<in> set (concat (map (\<lambda>m. if i = fst m
      then edge_targets messages ini ter (fst m) (snd (snd m)) else []) messages))"
    unfolding graph_rows_successors e by simp
  then obtain m where m: "m \<in> set messages" "i = fst m"
      "j \<in> set (edge_targets messages ini ter (fst m) (snd (snd m)))"
    by (auto split: if_splits)
  from m(3) obtain m' where m': "m' \<in> set messages" "fst m' = j"
      "snd (snd m) = fst (snd m')" "fst m \<notin> ter" "fst m' \<notin> ini"
    by (auto simp: edge_targets_def)
  from wf m(1) i m(2) have "m = (i, si, di)" by auto
  moreover from wf m'(1) j m'(2) have "m' = (j, sj, dj)" by auto
  ultimately show "di = sj \<and> i \<notin> ter \<and> j \<notin> ini" using m' by auto
next
  assume a: "di = sj \<and> i \<notin> ter \<and> j \<notin> ini"
  then have "j \<in> set (edge_targets messages ini ter i di)"
    using j by (force simp: edge_targets_def)
  then have "j \<in> set (concat (map (\<lambda>m. if i = fst m
      then edge_targets messages ini ter (fst m) (snd (snd m)) else []) messages))"
    using i by force
  then show "j \<in> set (successors_of (fold (graph_row messages ini ter) messages Map.empty) i)"
    unfolding graph_rows_successors by simp
qed

lemma graph_successors_general:
  "(j \<in> set (successors_of (fold (graph_row messages ini ter) messages Map.empty) i))
     = (\<exists>m\<in>set messages. \<exists>m'\<in>set messages.
          fst m = i \<and> fst m' = j \<and> snd (snd m) = fst (snd m') \<and> i \<notin> ter \<and> j \<notin> ini)"
proof -
  have e: "successors_of Map.empty i = []" by (simp add: successors_of_def)
  have "(j \<in> set (successors_of (fold (graph_row messages ini ter) messages Map.empty) i))
      = (j \<in> set (concat (map (\<lambda>m. if i = fst m
           then edge_targets messages ini ter (fst m) (snd (snd m)) else []) messages)))"
    unfolding graph_rows_successors e by simp
  also have "\<dots> = (\<exists>m\<in>set messages. i = fst m \<and>
       j \<in> set (edge_targets messages ini ter (fst m) (snd (snd m))))"
    by (auto split: if_splits)
  also have "\<dots> = (\<exists>m\<in>set messages. \<exists>m'\<in>set messages.
          fst m = i \<and> fst m' = j \<and> snd (snd m) = fst (snd m') \<and> i \<notin> ter \<and> j \<notin> ini)"
    unfolding edge_targets_def by auto
  finally show ?thesis .
qed

text \<open>The example dictionary is the one built from its message table.\<close>

lemma scenario_successors_built:
  "\<exists>sd. construct_causality_graph [(0, ''cpu'', ''cache''), (25, ''cache'', ''cpu'')]
       [[''0:cpu:cache''], [''25:cache:cpu'']] = Inr ({0}, {25}, sd) \<and>
       map sd [0, 25] = map scenario_successors [0, 25] \<and>
       map (successors_of sd) [0, 25] = map (successors_of scenario_successors) [0, 25]"
proof -
  have "case construct_causality_graph [(0, ''cpu'', ''cache''), (25, ''cache'', ''cpu'')]
       [[''0:cpu:cache''], [''25:cache:cpu'']] of Inl e \<Rightarrow> False
     | Inr r \<Rightarrow> fst r = {0} \<and> fst (snd r) = {25} \<and>
         map (snd (snd r)) [0, 25] = map scenario_successors [0, 25] \<and>
         map (successors_of (snd (snd r))) [0, 25] = map (successors_of scenario_successors) [0, 25]"
    by code_simp
  then show ?thesis by (auto split: sum.splits)
qed

text \<open>
  Claim C3 states that the \<open>a\<close> consumed at a \<open>b\<close> is the most recently pending one (a stack).
  The code pops the head of \<open>firsthalf\<close>: on the trace \<open>[1, 7, 1, 2]\<close> with the pair
  \<open>(1, 2)\<close> the occurrences of 1 at positions 0 and 2 are both pending when the 2 at
  position 3 is reached, and position 0 is consumed, not position 2; the residual is
  \<open>[7, 1]\<close>, where consuming the most recent one would leave \<open>[1, 7]\<close>.
\<close>

theorem remove_binary_pattern_not_lifo:
  "binary_toremove (1, 2) [1, 7, 1, 2] = [0, 3] \<and>
   binary_toremove (1, 2) [1, 7, 1, 2] \<noteq> [2, 3] \<and>
   remove_binary_pattern (1, 2) [1, 7, 1, 2] = [7, 1] \<and>
   remove_binary_pattern (1, 2) [1, 7, 1, 2] \<noteq> [1, 7]"
  by (simp add: remove_binary_pattern_def binary_toremove_def mark_trace_def pairing_init_def
      drop_positions_def upt_rec)

text \<open>
  Claim C3, amended: whenever an occurrence of \<open>b\<close> is reached while occurrences of \<open>a\<close> are
  pending, the earliest pending \<open>a\<close> is the one consumed and paired with that \<open>b\<close> (a queue).
  For every split \<open>pre @ b # post\<close> of the trace, the pairs removed on \<open>pre\<close> are followed by
  the pair of the first pending position and the position of this \<open>b\<close>, and the first
  pending position is the least one.  For the first \<open>b\<close> of the trace this is the first \<open>a\<close>
  of \<open>pre\<close>, and when the trace ends there the residual is \<open>pre\<close> without its first \<open>a\<close>.
\<close>

theorem remove_binary_pattern_fifo:
  assumes "a \<noteq> b"
    and "pending_positions a pre (binary_toremove (a, b) pre) \<noteq> []"
  shows "(\<exists>rest. binary_toremove (a, b) (pre @ b # post) =
            binary_toremove (a, b) pre @
            [hd (pending_positions a pre (binary_toremove (a, b) pre)), length pre] @ rest) \<and>
         (\<forall>i\<in>set (pending_positions a pre (binary_toremove (a, b) pre)).
            hd (pending_positions a pre (binary_toremove (a, b) pre)) \<le> i) \<and>
         (b \<notin> set pre \<longrightarrow>
            take 2 (binary_toremove (a, b) (pre @ b # post)) =
              [length (takeWhile (\<lambda>x. x \<noteq> a) pre), length pre] \<and>
            remove_binary_pattern (a, b) (pre @ [b]) = remove1 a pre)"
proof (intro conjI impI)
  let ?st = "pair_loop (mark_trace (a, b) pre) 0 pairing_init"
  let ?n = "length pre"
  let ?pend = "pending_positions a pre (binary_toremove (a, b) pre)"
  from assms(2) obtain p ps where pp: "?pend = p # ps" by (cases ?pend) auto
  have tr: "binary_toremove (a, b) pre = toremove ?st" by (simp add: binary_toremove_def)
  from pair_loop_invariant[OF assms(1), of pre] pp
  have fh: "firsthalf ?st = p # ps" by (simp add: binary_toremove_def)
  have pn: "p < ?n" using pending_positions_bound[of p a pre "binary_toremove (a, b) pre"] pp by simp
  have mk: "mark_trace (a, b) (pre @ b # post)
      = mark_trace (a, b) pre @ 2 # mark_trace (a, b) post"
    using assms(1) by (simp add: mark_trace_def)
  have "pair_loop (mark_trace (a, b) (pre @ b # post)) 0 pairing_init
      = pair_loop (2 # mark_trace (a, b) post) ?n ?st"
    unfolding mk using pair_loop_append[of "mark_trace (a, b) pre" _ 0 pairing_init]
    by (simp add: mark_trace_def)
  also have "\<dots> = pair_loop (mark_trace (a, b) post) (Suc ?n)
      (?st\<lparr>remove := p, firsthalf := ps, toremove := toremove ?st @ [p, ?n]\<rparr>)"
    using fh pn by (simp add: Let_def)
  finally have run: "pair_loop (mark_trace (a, b) (pre @ b # post)) 0 pairing_init
      = pair_loop (mark_trace (a, b) post) (Suc ?n)
      (?st\<lparr>remove := p, firsthalf := ps, toremove := toremove ?st @ [p, ?n]\<rparr>)" .
  from pair_loop_toremove_prefix[of "mark_trace (a, b) post" "Suc ?n"
      "?st\<lparr>remove := p, firsthalf := ps, toremove := toremove ?st @ [p, ?n]\<rparr>"]
  obtain ys where "toremove (pair_loop (mark_trace (a, b) (pre @ b # post)) 0 pairing_init)
      = (toremove ?st @ [p, ?n]) @ ys"
    unfolding run by auto
  then show "\<exists>rest. binary_toremove (a, b) (pre @ b # post) =
            binary_toremove (a, b) pre @ [hd ?pend, length pre] @ rest"
    unfolding pp by (simp add: binary_toremove_def)
next
  show "\<forall>i\<in>set (pending_positions a pre (binary_toremove (a, b) pre)).
            hd (pending_positions a pre (binary_toremove (a, b) pre)) \<le> i"
    by (auto intro: pending_positions_hd_least)
next
  assume nb: "b \<notin> set pre"
  from assms(2) obtain i where "i \<in> set (pending_positions a pre (binary_toremove (a, b) pre))"
    by (cases "pending_positions a pre (binary_toremove (a, b) pre)") auto
  then have "i < length pre" "pre ! i = a" by (auto simp: pending_positions_def)
  then have ain: "a \<in> set pre" by auto
  from first_pair_removed[OF assms(1) ain nb, of post]
  show "take 2 (binary_toremove (a, b) (pre @ b # post)) =
              [length (takeWhile (\<lambda>x. x \<noteq> a) pre), length pre]"
    and "remove_binary_pattern (a, b) (pre @ [b]) = remove1 a pre"
    by simp_all
qed

theorem remove_binary_pattern_fifo_witness:
  "(1::int) \<noteq> 2 \<and>
   pending_positions 1 [1, 1, 2, 7, 1] (binary_toremove (1, 2) [1, 1, 2, 7, 1]) = [1, 4] \<and>
   binary_toremove (1, 2) [1, 1, 2, 7, 1] = [0, 2] \<and>
   (\<exists>rest. binary_toremove (1, 2) ([1, 1, 2, 7, 1] @ 2 # [9, 1, 2]) = [0, 2] @ [1, 5] @ rest) \<and>
   binary_toremove (1, 2) [1, 1, 2, 7, 1, 2] = [0, 2, 1, 5] \<and>
   take 2 (binary_toremove (1, 2) ([1, 7, 1] @ 2 # [5, 1, 2])) = [0, 3] \<and>
   remove_binary_pattern (1, 2) ([1, 7, 1] @ [2]) = [7, 1]"
proof -
  have t: "binary_toremove (1, 2) [1, 1, 2, 7, 1] = [0, 2]" by code_simp
  have p: "pending_positions 1 [1, 1, 2, 7, 1] (binary_toremove (1, 2) [1, 1, 2, 7, 1]) = [1, 4]"
    by code_simp
  have e: "binary_toremove (1, 2) [1, 1, 2, 7, 1, 2] = [0, 2, 1, 5]" by code_simp
  have p2: "pending_positions 1 [1, 7, 1] (binary_toremove (1, 2) [1, 7, 1]) = [0, 2]"
    by code_simp
  have ne: "(1::int) \<noteq> 2" by simp
  have len: "length [1, 1, 2, 7, 1 :: int] = 5" "length [1, 7, 1 :: int] = 3" by simp_all
  have pne: "pending_positions 1 [1, 1, 2, 7, 1] (binary_toremove (1, 2) [1, 1, 2, 7, 1]) \<noteq> []"
    unfolding p by simp
  have p': "pending_positions 1 [1, 1, 2, 7, 1] [0, 2] = [1, 4]" using p unfolding t .
  have a: "\<exists>rest. binary_toremove (1, 2) ([1, 1, 2, 7, 1] @ 2 # [9, 1, 2]) = [0, 2] @ [1, 5] @ rest"
    using conjunct1[OF remove_binary_pattern_fifo [OF ne pne, of "[9, 1, 2]"]]
    unfolding t p' len by simp
  have pne2: "pending_positions 1 [1, 7, 1] (binary_toremove (1, 2) [1, 7, 1]) \<noteq> []"
    unfolding p2 by simp
  have nb: "(2::int) \<notin> set [1, 7, 1]" by simp
  note c = conjunct2[OF conjunct2[OF remove_binary_pattern_fifo [OF ne pne2, of "[5, 1, 2]"]],
      THEN mp, OF nb]
  have tw: "length (takeWhile (\<lambda>x. x \<noteq> 1) [1, 7, 1 :: int]) = 0" by simp
  have b: "take 2 (binary_toremove (1, 2) ([1, 7, 1] @ 2 # [5, 1, 2])) = [0, 3]"
    "remove_binary_pattern (1, 2) ([1, 7, 1] @ [2]) = [7, 1]"
    using c unfolding tw len by simp_all
  from ne p t a e b show ?thesis by (intro conjI)
qed

text \<open>
  Claim C1: for a pattern of length at least 2, \<open>remove_pattern_from_trace\<close> returns a
  residual; the residual is strictly shorter than the trace when the pattern occurs in the
  trace as an order-preserving subsequence, and it is the trace itself when the pattern
  does not occur.
\<close>

theorem remove_pattern_from_trace_shrinks_iff_occurs:
  assumes "2 \<le> length pattern"
  shows "\<exists>residual. remove_pattern_from_trace trace pattern = Inr residual \<and>
           (subseq pattern trace \<longrightarrow> length residual < length trace) \<and>
           (\<not> subseq pattern trace \<longrightarrow> residual = trace)"
proof -
  from assms have ne: "pattern \<noteq> []" by auto
  let ?r = "drop_positions (pattern_to_remove trace pattern) trace"
  have r: "remove_pattern_from_trace trace pattern = Inr ?r"
    using ne by (simp add: remove_pattern_from_trace_def)
  have shrink: "length ?r < length trace" if "subseq pattern trace"
  proof -
    from pattern_removed_first[OF ne that]
    obtain i where "i \<in> pattern_to_remove trace pattern" "i < length trace" by blast
    then show ?thesis by (rule drop_positions_shorter)
  qed
  have same: "?r = trace" if no: "\<not> subseq pattern trace"
  proof -
    let ?b = "fill_buckets (init_buckets pattern) 0 trace"
    have bk: "\<And>v. v \<in> set pattern \<Longrightarrow> ?b v = Some (positions v trace)"
      by (simp add: buckets_positions)
    have v: "pattern ! 0 \<in> set pattern" using ne by (cases pattern) simp_all
    have "match_starts ?b pattern (positions (pattern ! 0) trace) (replicate (length pattern) 0) {} = {}"
      by (rule match_starts_sound[OF bk ne no]) simp_all
    then have "pattern_to_remove trace pattern = {}"
      unfolding pattern_to_remove_def Let_def using bk[OF v] by simp
    then show ?thesis by (simp add: drop_positions_unchanged)
  qed
  from r shrink same show ?thesis by blast
qed

theorem remove_pattern_from_trace_shrinks_iff_occurs_witness:
  "2 \<le> length [0, 25 :: int] \<and> subseq [0, 25] [0, 0, 25 :: int] \<and>
   (\<exists>residual. remove_pattern_from_trace [0, 0, 25] [0, 25] = Inr residual \<and>
      length residual < length [0, 0, 25 :: int]) \<and>
   2 \<le> length [5, 6 :: int] \<and> \<not> subseq [5, 6] [1, 2, 3 :: int] \<and>
   remove_pattern_from_trace [1, 2, 3] [5, 6] = Inr [1, 2, 3]"
  using remove_pattern_from_trace_shrinks_iff_occurs [of "[0, 25]" "[0, 0, 25]"]
    remove_pattern_from_trace_shrinks_iff_occurs [of "[5, 6]" "[1, 2, 3]"]
  by auto

text \<open>
  Claim C4 states that every pair \<open>(a, b)\<close> returned by \<open>find_causal_pairs\<close> has \<open>b\<close> among
  the successors of \<open>a\<close>.  \<open>isCausal\<close> holds in either direction, so with 25 a successor of 0
  and 0 not a successor of 25 the pair \<open>(25, 0)\<close> is returned as well.
\<close>

theorem find_causal_pairs_not_directed:
  "(25, 0) \<in> find_causal_pairs [0, 25] scenario_successors \<and>
   0 \<notin> set (successors_of scenario_successors 25)"
  by (simp add: find_causal_pairs_def causal_pairs_step_def isCausal_def successors_of_def
      scenario_successors_def)

text \<open>
  Claim C4, amended: every pair \<open>(a, b)\<close> returned by \<open>find_causal_pairs\<close> has \<open>b\<close> among the
  successors of \<open>a\<close> or \<open>a\<close> among the successors of \<open>b\<close>, and the reversed pair \<open>(b, a)\<close> is
  returned with it.
\<close>

theorem find_causal_pairs_either_direction:
  assumes "(a, b) \<in> find_causal_pairs indices sd"
  shows "(b \<in> set (successors_of sd a) \<or> a \<in> set (successors_of sd b)) \<and>
         (b, a) \<in> find_causal_pairs indices sd"
proof -
  from assms have "(a, b) \<in> {} \<or> isCausal a b sd"
    unfolding find_causal_pairs_def by (rule causal_pairs_outer_sound)
  then have "b \<in> set (successors_of sd a) \<or> a \<in> set (successors_of sd b)"
    by (simp add: isCausal_def)
  moreover have "sym (find_causal_pairs indices sd)"
    unfolding find_causal_pairs_def by (rule causal_pairs_outer_sym) (simp add: sym_def)
  ultimately show ?thesis using assms by (auto dest: symD)
qed

theorem find_causal_pairs_either_direction_witness:
  "(25, 0) \<in> find_causal_pairs [0, 25] scenario_successors \<and>
   (0 \<in> set (successors_of scenario_successors 25) \<or>
    25 \<in> set (successors_of scenario_successors 0)) \<and>
   (0, 25) \<in> find_causal_pairs [0, 25] scenario_successors"
proof -
  have "(25, 0) \<in> find_causal_pairs [0, 25] scenario_successors"
    by (simp add: find_causal_pairs_def causal_pairs_step_def isCausal_def successors_of_def
        scenario_successors_def)
  with find_causal_pairs_either_direction [of 25 0 "[0, 25]" scenario_successors]
  show ?thesis by simp
qed

text \<open>
  Claim C6: the residual of \<open>remove_pattern_from_trace\<close> and of \<open>remove_binary_pattern\<close> is a
  subsequence of the trace, and the remaining trace of every node the decomposition search
  enters is a subsequence of the original trace.
\<close>

theorem residual_is_subsequence:
  "(\<forall>residual. remove_pattern_from_trace trace pattern = Inr residual \<longrightarrow> subseq residual trace) \<and>
   subseq (remove_binary_pattern pair trace) trace \<and>
   (\<forall>s. binary_pattern_search int_order pair_order trace sd = Inr s \<longrightarrow>
        (\<forall>n\<in>set (explored s). subseq (remaining_trace n) trace))"
proof (intro conjI allI impI)
  fix residual assume "remove_pattern_from_trace trace pattern = Inr residual"
  then have "residual = drop_positions (pattern_to_remove trace pattern) trace"
    by (auto simp: remove_pattern_from_trace_def split: if_splits)
  then show "subseq residual trace" by (simp add: drop_positions_subseq)
next
  show "subseq (remove_binary_pattern pair trace) trace" by (rule remove_binary_pattern_subseq)
next
  fix s assume s: "binary_pattern_search int_order pair_order trace sd = Inr s"
  then have "trace \<noteq> []" by (auto simp: binary_pattern_search_empty)
  from binary_pattern_search_inv[OF this, of int_order pair_order sd] s
  show "\<forall>n\<in>set (explored s). subseq (remaining_trace n) trace"
    by (simp add: search_inv_def)
qed

theorem residual_is_subsequence_witness:
  "remove_pattern_from_trace [0, 0, 25] [0, 25] = Inr [0] \<and> subseq [0] [0, 0, 25 :: int] \<and>
   (\<exists>s. binary_pattern_search (\<lambda>S. [0, 25, 1, 2, 3])
          (\<lambda>S. [(0, 25), (25, 0), (1, 2), (2, 1), (1, 3), (3, 1)])
          [0, 25, 1, 2, 1, 3] branching_successors = Inr s \<and>
        map remaining_trace (explored s) = [[0, 25, 1, 2, 1, 3], [1, 2, 1, 3], [1, 3]] \<and>
        (\<forall>n\<in>set (explored s). subseq (remaining_trace n) [0, 25, 1, 2, 1, 3]))"
proof -
  have r: "remove_pattern_from_trace [0, 0, 25] [0, 25] = Inr [0]" by code_simp
  have "case binary_pattern_search (\<lambda>S. [0, 25, 1, 2, 3])
          (\<lambda>S. [(0, 25), (25, 0), (1, 2), (2, 1), (1, 3), (3, 1)])
          [0, 25, 1, 2, 1, 3] branching_successors of
          Inl e \<Rightarrow> False
        | Inr s \<Rightarrow> map remaining_trace (explored s) = [[0, 25, 1, 2, 1, 3], [1, 2, 1, 3], [1, 3]]"
    by code_simp
  then obtain s where s: "binary_pattern_search (\<lambda>S. [0, 25, 1, 2, 3])
          (\<lambda>S. [(0, 25), (25, 0), (1, 2), (2, 1), (1, 3), (3, 1)])
          [0, 25, 1, 2, 1, 3] branching_successors = Inr s"
      "map remaining_trace (explored s) = [[0, 25, 1, 2, 1, 3], [1, 2, 1, 3], [1, 3]]"
    by (auto split: sum.splits)
  note t1 = residual_is_subsequence [of "[0, 0, 25]" "[0, 25]" "(0, 25)" "\<lambda>S. [0, 25, 1, 2, 3]"
      "\<lambda>S. [(0, 25), (25, 0), (1, 2), (2, 1), (1, 3), (3, 1)]" branching_successors]
  note t2 = residual_is_subsequence [of "[0, 25, 1, 2, 1, 3]" "[0, 25]" "(0, 25)"
      "\<lambda>S. [0, 25, 1, 2, 3]"
      "\<lambda>S. [(0, 25), (25, 0), (1, 2), (2, 1), (1, 3), (3, 1)]" branching_successors]
  have a: "subseq [0] [0, 0, 25 :: int]"
    using conjunct1[OF t1, THEN spec, THEN mp, OF r] .
  have b: "\<forall>n\<in>set (explored s). subseq (remaining_trace n) [0, 25, 1, 2, 1, 3]"
    using conjunct2[OF conjunct2[OF t2], THEN spec, THEN mp, OF s(1)] .
  show ?thesis using r a s b by (intro conjI exI[of _ s])
qed

text \<open>
  Claim C10: the leaf score is \<open>1 - len(remaining_trace) / len(original_trace)\<close>, and the
  division by the length of the original trace has no guard.  For a non-empty trace
  \<open>find_binary_pattern\<close> returns and every recorded score lies in \<open>[0, 1]\<close>; for the empty
  trace the score of the root raises \<open>ZeroDivisionError\<close>.  Every recorded route is the pair
  list of a node the search entered, that node's remaining trace is the original trace with
  the route's pairs removed in order, and the recorded score is one minus the length of
  that remaining trace over the length of the original trace.
\<close>

theorem acceptance_ratio_needs_nonempty_trace:
  "(trace \<noteq> [] \<longrightarrow>
      (\<exists>routes. find_binary_pattern int_order pair_order trace sd = Inr routes \<and>
         (\<forall>r\<in>set routes. 0 \<le> snd r \<and> snd r \<le> 1))) \<and>
   (trace = [] \<longrightarrow> find_binary_pattern int_order pair_order trace sd = Inl ZeroDivisionError) \<and>
   calculate_acceptance_ratio remaining [] = Inl ZeroDivisionError \<and>
   (original \<noteq> [] \<longrightarrow>
      calculate_acceptance_ratio remaining original
        = Inr (1 - of_nat (length remaining) / of_nat (length original))) \<and>
   (\<forall>s. binary_pattern_search int_order pair_order trace sd = Inr s \<longrightarrow>
      find_binary_pattern int_order pair_order trace sd = Inr (route_acceptance_ratios s) \<and>
      (\<forall>r\<in>set (route_acceptance_ratios s). \<exists>n\<in>set (explored s).
         used_pairs n = fst r \<and>
         remaining_trace n = fold remove_binary_pattern (fst r) trace \<and>
         snd r = 1 - of_nat (length (remaining_trace n)) / of_nat (length trace)))"
proof (intro conjI impI allI)
  assume "trace \<noteq> []"
  from binary_pattern_search_inv[OF this, of int_order pair_order sd]
  show "\<exists>routes. find_binary_pattern int_order pair_order trace sd = Inr routes \<and>
         (\<forall>r\<in>set routes. 0 \<le> snd r \<and> snd r \<le> 1)"
    by (auto simp: find_binary_pattern_def search_inv_def)
next
  assume "trace = []"
  then show "find_binary_pattern int_order pair_order trace sd = Inl ZeroDivisionError"
    by (simp add: find_binary_pattern_def binary_pattern_search_empty)
next
  show "calculate_acceptance_ratio remaining [] = Inl ZeroDivisionError"
    by (simp add: calculate_acceptance_ratio_def)
next
  assume "original \<noteq> []"
  then show "calculate_acceptance_ratio remaining original
        = Inr (1 - of_nat (length remaining) / of_nat (length original))"
    by (simp add: calculate_acceptance_ratio_def)
next
  fix s assume "binary_pattern_search int_order pair_order trace sd = Inr s"
  then show "find_binary_pattern int_order pair_order trace sd = Inr (route_acceptance_ratios s)"
    by (simp add: find_binary_pattern_def)
next
  fix s assume s: "binary_pattern_search int_order pair_order trace sd = Inr s"
  from binary_pattern_search_scored[OF s]
  have ex: "\<forall>n\<in>set (explored s).
         remaining_trace n = fold remove_binary_pattern (used_pairs n) trace"
    and ro: "\<forall>r\<in>set (route_acceptance_ratios s). \<exists>n\<in>set (explored s).
         used_pairs n = fst r \<and>
         snd r = 1 - of_nat (length (remaining_trace n)) / of_nat (length trace)"
    unfolding routes_scored_def by blast+
  show "\<forall>r\<in>set (route_acceptance_ratios s). \<exists>n\<in>set (explored s).
         used_pairs n = fst r \<and>
         remaining_trace n = fold remove_binary_pattern (fst r) trace \<and>
         snd r = 1 - of_nat (length (remaining_trace n)) / of_nat (length trace)"
  proof
    fix r assume "r \<in> set (route_acceptance_ratios s)"
    with ro obtain n where n: "n \<in> set (explored s)" "used_pairs n = fst r"
      "snd r = 1 - of_nat (length (remaining_trace n)) / of_nat (length trace)" by blast
    from ex n(1) have "remaining_trace n = fold remove_binary_pattern (used_pairs n) trace"
      by blast
    with n show "\<exists>n\<in>set (explored s). used_pairs n = fst r \<and>
         remaining_trace n = fold remove_binary_pattern (fst r) trace \<and>
         snd r = 1 - of_nat (length (remaining_trace n)) / of_nat (length trace)"
      by auto
  qed
qed

theorem acceptance_ratio_needs_nonempty_trace_witness:
  "[0, 0, 25] \<noteq> ([] :: int list) \<and>
   (\<exists>routes. find_binary_pattern (\<lambda>S. [0, 25]) (\<lambda>S. [(0, 25), (25, 0)]) [0, 0, 25]
        scenario_successors = Inr routes \<and> routes = [([(0, 25)], 2 / 3)] \<and>
      (\<forall>r\<in>set routes. 0 \<le> snd r \<and> snd r \<le> 1)) \<and>
   find_binary_pattern (\<lambda>S. [0, 25]) (\<lambda>S. [(0, 25), (25, 0)]) [] scenario_successors
     = Inl ZeroDivisionError \<and>
   calculate_acceptance_ratio [0] [0, 0, 25] = Inr (2 / 3) \<and>
   (\<exists>s. binary_pattern_search (\<lambda>S. [0, 25]) (\<lambda>S. [(0, 25), (25, 0)]) [0, 0, 25]
        scenario_successors = Inr s \<and>
      route_acceptance_ratios s = [([(0, 25)], 2 / 3)] \<and>
      map remaining_trace (explored s) = [[0, 0, 25], [0]] \<and>
      (\<forall>r\<in>set (route_acceptance_ratios s). \<exists>n\<in>set (explored s).
         used_pairs n = fst r \<and>
         remaining_trace n = fold remove_binary_pattern (fst r) [0, 0, 25] \<and>
         snd r = 1 - of_nat (length (remaining_trace n)) / of_nat (length [0, 0, 25 :: int])))"
proof -
  have e: "find_binary_pattern (\<lambda>S. [0, 25]) (\<lambda>S. [(0, 25), (25, 0)]) [0, 0, 25]
        scenario_successors = Inr [([(0, 25)], 2 / 3)]" by code_simp
  have "case binary_pattern_search (\<lambda>S. [0, 25]) (\<lambda>S. [(0, 25), (25, 0)]) [0, 0, 25]
        scenario_successors of
          Inl e \<Rightarrow> False
        | Inr s \<Rightarrow> route_acceptance_ratios s = [([(0, 25)], 2 / 3)] \<and>
            map remaining_trace (explored s) = [[0, 0, 25], [0]]"
    by code_simp
  then obtain s where s: "binary_pattern_search (\<lambda>S. [0, 25]) (\<lambda>S. [(0, 25), (25, 0)])
        [0, 0, 25] scenario_successors = Inr s"
      "route_acceptance_ratios s = [([(0, 25)], 2 / 3)]"
      "map remaining_trace (explored s) = [[0, 0, 25], [0]]"
    by (auto split: sum.splits)
  note t1 = acceptance_ratio_needs_nonempty_trace [of "[0, 0, 25]" "\<lambda>S. [0, 25]"
      "\<lambda>S. [(0, 25), (25, 0)]" scenario_successors "[0]" "[0, 0, 25]"]
  note t2 = acceptance_ratio_needs_nonempty_trace [of "[]" "\<lambda>S. [0, 25]"
      "\<lambda>S. [(0, 25), (25, 0)]" scenario_successors "[]" "[]"]
  have ne: "[0, 0, 25] \<noteq> ([] :: int list)" by simp
  have a: "\<exists>routes. find_binary_pattern (\<lambda>S. [0, 25]) (\<lambda>S. [(0, 25), (25, 0)]) [0, 0, 25]
        scenario_successors = Inr routes \<and> routes = [([(0, 25)], 2 / 3)] \<and>
      (\<forall>r\<in>set routes. 0 \<le> snd r \<and> snd r \<le> 1)"
    using conjunct1[OF t1, THEN mp, OF ne] e by auto
  have b: "find_binary_pattern (\<lambda>S. [0, 25]) (\<lambda>S. [(0, 25), (25, 0)]) [] scenario_successors
     = Inl ZeroDivisionError"
    using conjunct1[OF conjunct2[OF t2]] by simp
  have c: "calculate_acceptance_ratio [0] [0, 0, 25] = Inr (2 / 3)"
    using conjunct1[OF conjunct2[OF conjunct2[OF conjunct2[OF t1]]], THEN mp, OF ne] by simp
  have d: "\<forall>r\<in>set (route_acceptance_ratios s). \<exists>n\<in>set (explored s).
         used_pairs n = fst r \<and>
         remaining_trace n = fold remove_binary_pattern (fst r) [0, 0, 25] \<and>
         snd r = 1 - of_nat (length (remaining_trace n)) / of_nat (length [0, 0, 25 :: int])"
    using conjunct2[OF conjunct2[OF conjunct2[OF conjunct2[OF t1]]], THEN spec, THEN mp, OF s(1)]
    by (rule conjunct2)
  show ?thesis using ne a b c s d by (intro conjI exI[of _ s])
qed

text \<open>
  Claim C5 states that decomposing \<open>[0, 25, 0, 25]\<close> with the pattern \<open>(0, 25)\<close> gives the one
  route \<open>[(0, 25), (0, 25)]\<close> with ratio 1.  One application of \<open>remove_binary_pattern\<close>
  removes both occurrences of the pair, so the one route holds the pair once: the result is
  \<open>[(0, 25)]\<close> with ratio 1, whatever the iteration order of the pair set, and also when the
  pair set holds \<open>(0, 25)\<close> alone.
\<close>

theorem scenario5_pair_applied_once:
  "find_binary_pattern (\<lambda>S. [0, 25]) (\<lambda>S. [(0, 25), (25, 0)]) [0, 25, 0, 25]
     scenario_successors = Inr [([(0, 25)], 1)] \<and>
   find_binary_pattern (\<lambda>S. [0, 25]) (\<lambda>S. [(0, 25), (25, 0)]) [0, 25, 0, 25]
     scenario_successors \<noteq> Inr [([(0, 25), (0, 25)], 1)] \<and>
   find_binary_pattern (\<lambda>S. [0, 25]) (\<lambda>S. [(25, 0), (0, 25)]) [0, 25, 0, 25]
     scenario_successors \<noteq> Inr [([(0, 25), (0, 25)], 1)] \<and>
   find_binary_pattern (\<lambda>S. [0, 25]) (\<lambda>S. [(0, 25)]) [0, 25, 0, 25]
     scenario_successors \<noteq> Inr [([(0, 25), (0, 25)], 1)]"
  by code_simp

text \<open>
  Claim C5, amended: decomposing the trace \<open>[0, 25, 0, 25]\<close>, where 25 is a successor of 0,
  produces exactly one route; its applied-pattern list is \<open>[(0, 25)]\<close> and its acceptance
  ratio is 1.  This holds for every successor dictionary with 25 among the successors of 0
  and for every order in which the two sets are iterated.
\<close>

theorem scenario5_single_route:
  assumes "25 \<in> set (successors_of sd 0)"
    and "distinct (int_order (set [0, 25, 0, 25]))"
    and "set (int_order (set [0, 25, 0, 25])) = set [0, 25, 0, 25]"
    and "distinct (pair_order (find_causal_pairs (int_order (set [0, 25, 0, 25])) sd))"
    and "set (pair_order (find_causal_pairs (int_order (set [0, 25, 0, 25])) sd))
           = find_causal_pairs (int_order (set [0, 25, 0, 25])) sd"
  shows "find_binary_pattern int_order pair_order [0, 25, 0, 25] sd = Inr [([(0, 25)], 1)]"
proof -
  let ?gi = "int_order (set [0, 25, 0, 25])"
  let ?ps = "pair_order (find_causal_pairs ?gi sd)"
  have "set ?gi = {0, 25}" using assms(3) by auto
  with assms(2) have "?gi = [0, 25] \<or> ?gi = [25, 0]" by (rule distinct_two) simp
  then have cp: "find_causal_pairs ?gi sd = {(0, 25), (25, 0)}"
  proof
    assume g: "?gi = [0, 25]"
    show ?thesis unfolding g by (rule scenario5_pairs(1)[OF assms(1)])
  next
    assume g: "?gi = [25, 0]"
    show ?thesis unfolding g by (rule scenario5_pairs(2)[OF assms(1)])
  qed
  have "distinct ?ps" by (rule assms(4))
  moreover have "set ?ps = {(0, 25), (25, 0)}" using assms(5) unfolding cp .
  ultimately have "?ps = [(0, 25), (25, 0)] \<or> ?ps = [(25, 0), (0, 25)]"
    by (rule distinct_two) simp
  then show ?thesis
  proof
    assume p: "?ps = [(0, 25), (25, 0)]"
    show ?thesis unfolding find_binary_pattern_unfold p by (rule scenario5_explore(1))
  next
    assume p: "?ps = [(25, 0), (0, 25)]"
    show ?thesis unfolding find_binary_pattern_unfold p by (rule scenario5_explore(2))
  qed
qed

theorem scenario5_single_route_witness:
  "25 \<in> set (successors_of scenario_successors 0) \<and>
   distinct [25, 0 :: int] \<and> set [25, 0] = set [0, 25, 0, 25 :: int] \<and>
   distinct [(25, 0), (0, 25 :: int)] \<and>
   set [(25, 0), (0, 25)] = find_causal_pairs [25, 0] scenario_successors \<and>
   find_binary_pattern (\<lambda>S. [25, 0]) (\<lambda>S. [(25, 0), (0, 25)]) [0, 25, 0, 25]
     scenario_successors = Inr [([(0, 25)], 1)]"
proof -
  have s: "25 \<in> set (successors_of scenario_successors 0)"
    by (simp add: successors_of_def scenario_successors_def)
  have p: "set [(25, 0), (0, 25)] = find_causal_pairs [25, 0] scenario_successors"
    using scenario5_pairs(2)[OF s] by auto
  have "find_binary_pattern (\<lambda>S. [25, 0]) (\<lambda>S. [(25, 0), (0, 25)]) [0, 25, 0, 25]
     scenario_successors = Inr [([(0, 25)], 1)]"
    by (rule scenario5_single_route) (use s p in auto)
  with s p show ?thesis by auto
qed

text \<open>
  Claim C2 (a child's consumed values are the parent's plus its own pair, and exploring a
  child leaves the parent's consumed values as they were) fails on the code whenever the
  parent's \<open>used_nodes\<close> list is not empty: the child is then given the very list object of
  its parent, and the two \<open>append\<close> calls change the parent's list.  On the trace
  \<open>[0, 25, 1, 2, 1, 3]\<close> the node reached by \<open>(0, 25)\<close> and its child share list 1, which
  ends as \<open>[0, 25, 1, 2]\<close>; the sibling pair \<open>(1, 3)\<close> is then skipped as used and a single
  route is recorded (with \<open>(1, 3)\<close> iterated first, the pair \<open>(1, 2)\<close> is skipped).  At the
  root, whose list is empty and is replaced by a fresh one for each child, the same two
  pairs on the trace \<open>[1, 2, 1, 3]\<close> give two routes.
\<close>

theorem explore_node_child_shares_used_nodes:
  "(\<exists>s. binary_pattern_search (\<lambda>S. [0, 25, 1, 2, 3])
          (\<lambda>S. [(0, 25), (25, 0), (1, 2), (2, 1), (1, 3), (3, 1)])
          [0, 25, 1, 2, 1, 3] branching_successors = Inr s \<and>
        map used_nodes (explored s) = [0, 1, 1] \<and>
        map used_pairs (explored s) = [[], [(0, 25)], [(0, 25), (1, 2)]] \<and>
        heap s 1 = [0, 25, 1, 2] \<and>
        route_acceptance_ratios s = [([(0, 25), (1, 2)], 2 / 3)]) \<and>
   find_binary_pattern (\<lambda>S. [0, 25, 1, 2, 3])
     (\<lambda>S. [(0, 25), (25, 0), (1, 3), (3, 1), (1, 2), (2, 1)])
     [0, 25, 1, 2, 1, 3] branching_successors = Inr [([(0, 25), (1, 3)], 2 / 3)] \<and>
   find_binary_pattern (\<lambda>S. [1, 2, 3]) (\<lambda>S. [(1, 2), (2, 1), (1, 3), (3, 1)])
     [1, 2, 1, 3] branching_successors = Inr [([(1, 2)], 1 / 2), ([(1, 3)], 1 / 2)] \<and>
   find_causal_pairs [0, 25, 1, 2, 3] branching_successors
     = set [(0, 25), (25, 0), (1, 2), (2, 1), (1, 3), (3, 1)]"
proof -
  have "case binary_pattern_search (\<lambda>S. [0, 25, 1, 2, 3])
          (\<lambda>S. [(0, 25), (25, 0), (1, 2), (2, 1), (1, 3), (3, 1)])
          [0, 25, 1, 2, 1, 3] branching_successors of
          Inl e \<Rightarrow> False
        | Inr s \<Rightarrow> map used_nodes (explored s) = [0, 1, 1] \<and>
            map used_pairs (explored s) = [[], [(0, 25)], [(0, 25), (1, 2)]] \<and>
            heap s 1 = [0, 25, 1, 2] \<and>
            route_acceptance_ratios s = [([(0, 25), (1, 2)], 2 / 3)]"
    by code_simp
  then have a: "\<exists>s. binary_pattern_search (\<lambda>S. [0, 25, 1, 2, 3])
          (\<lambda>S. [(0, 25), (25, 0), (1, 2), (2, 1), (1, 3), (3, 1)])
          [0, 25, 1, 2, 1, 3] branching_successors = Inr s \<and>
        map used_nodes (explored s) = [0, 1, 1] \<and>
        map used_pairs (explored s) = [[], [(0, 25)], [(0, 25), (1, 2)]] \<and>
        heap s 1 = [0, 25, 1, 2] \<and>
        route_acceptance_ratios s = [([(0, 25), (1, 2)], 2 / 3)]"
    by (auto split: sum.splits)
  have b: "find_binary_pattern (\<lambda>S. [0, 25, 1, 2, 3])
     (\<lambda>S. [(0, 25), (25, 0), (1, 3), (3, 1), (1, 2), (2, 1)])
     [0, 25, 1, 2, 1, 3] branching_successors = Inr [([(0, 25), (1, 3)], 2 / 3)]"
    by code_simp
  have c: "find_binary_pattern (\<lambda>S. [1, 2, 3]) (\<lambda>S. [(1, 2), (2, 1), (1, 3), (3, 1)])
     [1, 2, 1, 3] branching_successors = Inr [([(1, 2)], 1 / 2), ([(1, 3)], 1 / 2)]"
    by code_simp
  have d: "find_causal_pairs [0, 25, 1, 2, 3] branching_successors
     = set [(0, 25), (25, 0), (1, 2), (2, 1), (1, 3), (3, 1)]"
    by code_simp
  from a b c d show ?thesis by (intro conjI)
qed

text \<open>
  Claim C9: \<open>find_acceptance_ratios\<close> terminates for every trace and every list of patterns
  (it returns the list of ratios, or raises when it reaches an empty pattern).  In each pass
  the first pending pattern is not skipped, since \<open>used_numbers\<close> starts empty; a pass that
  ends normally has marked it for removal, so the list of pending pointers strictly
  shrinks.
\<close>

theorem find_acceptance_ratios_terminates:
  "(\<exists>result. find_acceptance_ratios trace patterns = Some result) \<and>
   (\<forall>pointers ratios st.
      pointers \<noteq> [] \<longrightarrow>
      acceptance_pass patterns pointers (pass_init trace ratios) = Inr st \<longrightarrow>
        hd pointers \<in> patterns_to_remove st \<and>
        length (filter (\<lambda>pointer. pointer \<notin> patterns_to_remove st) pointers) < length pointers)"
proof (intro conjI allI impI)
  show "\<exists>result. find_acceptance_ratios trace patterns = Some result"
    unfolding find_acceptance_ratios_def by (rule acceptance_loop_returns)
next
  fix pointers ratios st
  assume ne: "pointers \<noteq> []"
    and p: "acceptance_pass patterns pointers (pass_init trace ratios) = Inr st"
  from ne obtain pointer rest where ps: "pointers = pointer # rest" by (cases pointers) auto
  from p[unfolded ps] have "pointer \<in> patterns_to_remove st" by (rule acceptance_pass_first)
  then show "hd pointers \<in> patterns_to_remove st" by (simp add: ps)
next
  fix pointers ratios st
  assume ne: "pointers \<noteq> []"
    and p: "acceptance_pass patterns pointers (pass_init trace ratios) = Inr st"
  then show "length (filter (\<lambda>pointer. pointer \<notin> patterns_to_remove st) pointers) < length pointers"
    by (rule acceptance_pass_shrinks)
qed

theorem find_acceptance_ratios_terminates_witness:
  "find_acceptance_ratios [0, 25, 0, 25] [[0, 25], [25, 0]]
     = Some (Inr [([0, 25], 1), ([0, 25], 1), ([25, 0], 1 / 2), ([25, 0], 1 / 2)]) \<and>
   (\<exists>st. acceptance_pass [[0, 25], [25, 0]] [0, 1] (pass_init [0, 25, 0, 25] []) = Inr st \<and>
      patterns_to_remove st = {0} \<and> hd [0, 1] \<in> patterns_to_remove st \<and>
      length (filter (\<lambda>pointer. pointer \<notin> patterns_to_remove st) [0, 1]) < length [0, 1 :: nat])"
proof -
  have e: "find_acceptance_ratios [0, 25, 0, 25] [[0, 25], [25, 0]]
     = Some (Inr [([0, 25], 1), ([0, 25], 1), ([25, 0], 1 / 2), ([25, 0], 1 / 2)])"
    by code_simp
  have "case acceptance_pass [[0, 25], [25, 0]] [0, 1] (pass_init [0, 25, 0, 25] []) of
          Inl e \<Rightarrow> False | Inr st \<Rightarrow> patterns_to_remove st = {0}"
    by code_simp
  then obtain st where
    st: "acceptance_pass [[0, 25], [25, 0]] [0, 1] (pass_init [0, 25, 0, 25] []) = Inr st"
        "patterns_to_remove st = {0}"
    by (auto split: sum.splits)
  have ne: "[0, 1 :: nat] \<noteq> []" by simp
  note t = find_acceptance_ratios_terminates [of "[0, 25, 0, 25]" "[[0, 25], [25, 0]]"]
  have "hd [0, 1] \<in> patterns_to_remove st \<and>
      length (filter (\<lambda>pointer. pointer \<notin> patterns_to_remove st) [0, 1]) < length [0, 1 :: nat]"
    using conjunct2[OF t, THEN spec, THEN spec, THEN spec, THEN mp, THEN mp, OF ne st(1)] .
  with e st show ?thesis by (intro conjI exI[of _ st]) simp_all
qed

text \<open>
  Claim C7: given at least one section, with an integer at the start of every non-empty line
  of the first and the last section, \<open>construct_causality_graph\<close> returns the indices of the
  first section as initial nodes, the indices of the last section as terminating nodes, and
  a successor map in which \<open>j\<close> is a successor of \<open>i\<close> iff some occurrence of \<open>i\<close> has as its
  destination the source of some occurrence of \<open>j\<close>, \<open>i\<close> is not terminating and \<open>j\<close> is not
  initial (\<open>i = j\<close> included).  When the index determines the message, as in a message
  table, this reads: for all occurrences \<open>(i, si, di)\<close> and \<open>(j, sj, dj)\<close>, \<open>j\<close> is a successor
  of \<open>i\<close> iff \<open>di = sj\<close>, \<open>i\<close> is not terminating and \<open>j\<close> is not initial.
\<close>

theorem construct_causality_graph_successors:
  assumes ne: "sections \<noteq> []"
    and parse: "\<forall>line\<in>set (hd sections) \<union> set (last sections).
                  line \<noteq> [] \<longrightarrow> (\<exists>i. line_index line = Inr i)"
  shows "\<exists>initial_nodes terminating_nodes sd.
      construct_causality_graph messages sections = Inr (initial_nodes, terminating_nodes, sd) \<and>
      initial_nodes = {i. \<exists>line\<in>set (hd sections). line \<noteq> [] \<and> line_index line = Inr i} \<and>
      terminating_nodes = {i. \<exists>line\<in>set (last sections). line \<noteq> [] \<and> line_index line = Inr i} \<and>
      (\<forall>i j. (j \<in> set (successors_of sd i))
           = (\<exists>m\<in>set messages. \<exists>m'\<in>set messages.
                fst m = i \<and> fst m' = j \<and> snd (snd m) = fst (snd m') \<and>
                i \<notin> terminating_nodes \<and> j \<notin> initial_nodes)) \<and>
      ((\<forall>m\<in>set messages. \<forall>m'\<in>set messages. fst m = fst m' \<longrightarrow> m = m') \<longrightarrow>
       (\<forall>(i, si, di)\<in>set messages. \<forall>(j, sj, dj)\<in>set messages.
          (j \<in> set (successors_of sd i))
            = (di = sj \<and> i \<notin> terminating_nodes \<and> j \<notin> initial_nodes)))"
proof -
  from parse have "\<forall>line\<in>set (filter (\<lambda>line. line \<noteq> []) (hd sections)). \<exists>i. line_index line = Inr i"
    by auto
  then obtain initial where i: "section_indices (hd sections) = Inr initial"
    unfolding section_indices_def using map_result_returns by blast
  from parse have "\<forall>line\<in>set (filter (\<lambda>line. line \<noteq> []) (last sections)). \<exists>i. line_index line = Inr i"
    by auto
  then obtain terminating where t: "section_indices (last sections) = Inr terminating"
    unfolding section_indices_def using map_result_returns by blast
  have si: "set initial = {i. \<exists>line\<in>set (hd sections). line \<noteq> [] \<and> line_index line = Inr i}"
    using map_result_set[OF i[unfolded section_indices_def]] by auto
  have st: "set terminating = {i. \<exists>line\<in>set (last sections). line \<noteq> [] \<and> line_index line = Inr i}"
    using map_result_set[OF t[unfolded section_indices_def]] by auto
  let ?sd = "fold (graph_row messages (set initial) (set terminating)) messages Map.empty"
  have c: "construct_causality_graph messages sections = Inr (set initial, set terminating, ?sd)"
    using ne i t by (simp add: construct_causality_graph_def)
  have gen: "\<forall>i j. (j \<in> set (successors_of ?sd i))
           = (\<exists>m\<in>set messages. \<exists>m'\<in>set messages.
                fst m = i \<and> fst m' = j \<and> snd (snd m) = fst (snd m') \<and>
                i \<notin> set terminating \<and> j \<notin> set initial)"
    using graph_successors_general by blast
  have iff: "(\<forall>m\<in>set messages. \<forall>m'\<in>set messages. fst m = fst m' \<longrightarrow> m = m') \<longrightarrow>
      (\<forall>(i, si, di)\<in>set messages. \<forall>(j, sj, dj)\<in>set messages.
         (j \<in> set (successors_of ?sd i)) = (di = sj \<and> i \<notin> set terminating \<and> j \<notin> set initial))"
  proof
    assume wf: "\<forall>m\<in>set messages. \<forall>m'\<in>set messages. fst m = fst m' \<longrightarrow> m = m'"
    show "\<forall>(i, si, di)\<in>set messages. \<forall>(j, sj, dj)\<in>set messages.
         (j \<in> set (successors_of ?sd i)) = (di = sj \<and> i \<notin> set terminating \<and> j \<notin> set initial)"
      using graph_successors_iff[OF wf] by blast
  qed
  show ?thesis
    by (intro exI[of _ "set initial"] exI[of _ "set terminating"] exI[of _ ?sd] conjI c si st gen iff)
qed

theorem construct_causality_graph_successors_witness:
  "\<exists>initial_nodes terminating_nodes sd.
     construct_causality_graph
       [(0, ''cpu'', ''cache''), (5, ''cache'', ''cache''), (25, ''cache'', ''cpu'')]
       [[''0:cpu:cache''], [''5:cache:cache''], [''25:cache:cpu'']]
       = Inr (initial_nodes, terminating_nodes, sd) \<and>
     initial_nodes = {0} \<and> terminating_nodes = {25} \<and>
     5 \<in> set (successors_of sd 5) \<and> 25 \<in> set (successors_of sd 0) \<and>
     0 \<notin> set (successors_of sd 25) \<and> 0 \<notin> set (successors_of sd 5)"
proof -
  let ?ms = "[(0::int, ''cpu'', ''cache''), (5, ''cache'', ''cache''), (25, ''cache'', ''cpu'')]"
  let ?secs = "[[''0:cpu:cache''], [''5:cache:cache''], [''25:cache:cpu'']]"
  have l0: "line_index ''0:cpu:cache'' = Inr 0" by code_simp
  have l25: "line_index ''25:cache:cpu'' = Inr 25" by code_simp
  have wf: "\<forall>m\<in>set ?ms. \<forall>m'\<in>set ?ms. fst m = fst m' \<longrightarrow> m = m'" by simp
  have ne: "?secs \<noteq> []" by simp
  have parse: "\<forall>line\<in>set (hd ?secs) \<union> set (last ?secs). line \<noteq> [] \<longrightarrow> (\<exists>i. line_index line = Inr i)"
    using l0 l25 by simp
  from construct_causality_graph_successors [OF ne parse, of ?ms]
  show ?thesis
  proof (elim exE conjE)
    fix initial_nodes terminating_nodes sd
    assume r: "construct_causality_graph ?ms ?secs = Inr (initial_nodes, terminating_nodes, sd)"
      and i: "initial_nodes = {i. \<exists>line\<in>set (hd ?secs). line \<noteq> [] \<and> line_index line = Inr i}"
      and t: "terminating_nodes = {i. \<exists>line\<in>set (last ?secs). line \<noteq> [] \<and> line_index line = Inr i}"
      and s0: "(\<forall>m\<in>set ?ms. \<forall>m'\<in>set ?ms. fst m = fst m' \<longrightarrow> m = m') \<longrightarrow>
         (\<forall>(i, si, di)\<in>set ?ms. \<forall>(j, sj, dj)\<in>set ?ms.
           (j \<in> set (successors_of sd i)) = (di = sj \<and> i \<notin> terminating_nodes \<and> j \<notin> initial_nodes))"
    from s0 wf have s: "\<forall>(i, si, di)\<in>set ?ms. \<forall>(j, sj, dj)\<in>set ?ms.
           (j \<in> set (successors_of sd i)) = (di = sj \<and> i \<notin> terminating_nodes \<and> j \<notin> initial_nodes)"
      by (rule mp)
    have i': "initial_nodes = {0}" using i l0 by auto
    have t': "terminating_nodes = {25}" using t l25 by auto
    from s have "5 \<in> set (successors_of sd 5)" "25 \<in> set (successors_of sd 0)"
      "0 \<notin> set (successors_of sd 25)" "0 \<notin> set (successors_of sd 5)"
      unfolding i' t' by simp_all
    with r i' t' show ?thesis by (intro exI[of _ initial_nodes] exI[of _ terminating_nodes] exI[of _ sd] conjI)
  qed
qed

text \<open>
  Claim C8 (malformed input is skipped and never fatal) fails on the code: \<open>int\<close> is
  called without a handler.  A trace token that is not an integer makes
  \<open>read_trace_from_file\<close> raise \<open>ValueError\<close>, and so does a definition line with four
  fields whose index is not an integer in \<open>extract_groups_from_msg_file\<close>.  Only a line
  that does not have exactly four fields is skipped.
\<close>

theorem malformed_input_raises:
  "read_trace_from_file ''0 x 25'' = Inl ValueError \<and>
   extract_groups_from_msg_file [''0:cpu0:cache0:req'', ''x:cache0:cpu0:resp''] = Inl ValueError \<and>
   extract_groups_from_msg_file [''0:cpu0:cache0:req'', ''garbage'', ''25:cache0:cpu0:resp'']
     = Inr [(''cache0'', ''cpu0'', [0, 25])] \<and>
   read_trace_from_file ''0 25'' = Inr [0, 25]"
  by code_simp

end
